theory Spec2Isabelle
  imports Main "HOL-Library.Monad_Syntax"
begin

section \<open>Tokens and parsed documents\<close>

text \<open>
  The extraction engine of \<^verbatim>\<open>whodidwhat/svo_extraction.py\<close> walks the tokens of a
  parsed spaCy document. A token is modelled by the attributes the code reads: its
  surface text, lemma, coarse and fine part-of-speech tags, dependency label, head,
  coordinated tokens and the value list of the morphological feature \<^verbatim>\<open>Mood\<close>. A
  document is the list of its tokens and a token is addressed by its position
  (\<^verbatim>\<open>token.i\<close>); two tokens are equal when their positions are.
\<close>

record token =
  tok_text :: string
  tok_lemma :: string
  tok_pos :: string
  tok_tag :: string
  tok_dep :: string
  tok_head :: nat
  tok_conjuncts :: "nat list"
  tok_mood :: "string list"

type_synonym doc = "token list"

abbreviation text_of :: "doc \<Rightarrow> nat \<Rightarrow> string" where
  "text_of d t \<equiv> tok_text (d ! t)"

abbreviation lemma_of :: "doc \<Rightarrow> nat \<Rightarrow> string" where
  "lemma_of d t \<equiv> tok_lemma (d ! t)"

abbreviation pos_of :: "doc \<Rightarrow> nat \<Rightarrow> string" where
  "pos_of d t \<equiv> tok_pos (d ! t)"

abbreviation tag_of :: "doc \<Rightarrow> nat \<Rightarrow> string" where
  "tag_of d t \<equiv> tok_tag (d ! t)"

abbreviation dep_of :: "doc \<Rightarrow> nat \<Rightarrow> string" where
  "dep_of d t \<equiv> tok_dep (d ! t)"

abbreviation head_of :: "doc \<Rightarrow> nat \<Rightarrow> nat" where
  "head_of d t \<equiv> tok_head (d ! t)"

abbreviation conjuncts_of :: "doc \<Rightarrow> nat \<Rightarrow> nat list" where
  "conjuncts_of d t \<equiv> tok_conjuncts (d ! t)"

abbreviation mood_of :: "doc \<Rightarrow> nat \<Rightarrow> string list" where
  "mood_of d t \<equiv> tok_mood (d ! t)"

text \<open>
  The structural attributes follow spaCy: the children of a token are the other tokens
  whose head it is, in document order; \<^verbatim>\<open>lefts\<close> and \<^verbatim>\<open>rights\<close> are the children before
  and after it; \<^verbatim>\<open>ancestors\<close> follows the head links up to the root (the token that is its
  own head), for at most as many steps as the document has tokens; \<^verbatim>\<open>subtree\<close> is the token
  with its descendants.
\<close>

definition children :: "doc \<Rightarrow> nat \<Rightarrow> nat list" where
  "children d t = [c \<leftarrow> [0..<length d]. c \<noteq> t \<and> head_of d c = t]"

definition lefts :: "doc \<Rightarrow> nat \<Rightarrow> nat list" where
  "lefts d t = [c \<leftarrow> children d t. c < t]"

definition rights :: "doc \<Rightarrow> nat \<Rightarrow> nat list" where
  "rights d t = [c \<leftarrow> children d t. t < c]"

fun ancestors_upto :: "nat \<Rightarrow> doc \<Rightarrow> nat \<Rightarrow> nat list" where
  "ancestors_upto 0 d t = []"
| "ancestors_upto (Suc k) d t =
     (if head_of d t = t then [] else head_of d t # ancestors_upto k d (head_of d t))"

definition ancestors :: "doc \<Rightarrow> nat \<Rightarrow> nat list" where
  "ancestors d t = ancestors_upto (length d) d t"

definition subtree :: "doc \<Rightarrow> nat \<Rightarrow> nat list" where
  "subtree d t = [c \<leftarrow> [0..<length d]. c = t \<or> t \<in> set (ancestors d c)]"

section \<open>Strings and sequencing\<close>

text \<open>Python's \<^verbatim>\<open>' '.join(parts)\<close>.\<close>

fun join :: "string list \<Rightarrow> string" where
  "join [] = []"
| "join [x] = x"
| "join (x # y # ys) = x @ '' '' @ join (y # ys)"

text \<open>
  The functions below are recursive on the token structure and Python bounds the depth
  of its call stack: a call that would exceed the bound raises \<^verbatim>\<open>RecursionError\<close>. Each
  recursive function therefore takes the depth it may still use, and \<open>None\<close> is the
  raised error. \<open>extend_all f xs\<close> is the loop
  \<^verbatim>\<open>for x in xs: acc.extend(f(x))\<close>; \<open>first_nonempty f xs\<close> is the loop that stops at the
  first \<open>x\<close> for which \<open>f x\<close> is not empty.
\<close>

type_synonym phrase = "string \<times> string list"

definition extend_all :: "('a \<Rightarrow> 'b list option) \<Rightarrow> 'a list \<Rightarrow> 'b list option" where
  "extend_all f xs = map_option concat (those (map f xs))"

fun first_nonempty :: "('a \<Rightarrow> 'b list option) \<Rightarrow> 'a list \<Rightarrow> 'b list option" where
  "first_nonempty f [] = Some []"
| "first_nonempty f (x # xs) =
     (case f x of
        None \<Rightarrow> None
      | Some [] \<Rightarrow> first_nonempty f xs
      | Some (r # rs) \<Rightarrow> Some (r # rs))"

section \<open>Phrase assembly: \<^verbatim>\<open>get_compound_parts\<close>\<close>

text \<open>
  The nested helper \<^verbatim>\<open>get_conj_ADJ(token)\<close> does not read its parameter: its body loops
  over \<^verbatim>\<open>child.conjuncts\<close>, where \<^verbatim>\<open>child\<close> is the variable of the enclosing loop over
  \<^verbatim>\<open>token.children\<close>. So every call made while that loop is at \<open>child\<close> appends the
  adjectival conjuncts of \<open>child\<close>.
\<close>

definition get_conj_ADJ :: "doc \<Rightarrow> nat \<Rightarrow> nat list" where
  "get_conj_ADJ d child =
     [conj \<leftarrow> conjuncts_of d child. pos_of d conj = ''ADJ'' \<and> dep_of d conj = ''conj'']"

definition is_modifier :: "doc \<Rightarrow> nat \<Rightarrow> nat \<Rightarrow> bool" where
  "is_modifier d token child \<longleftrightarrow>
     (dep_of d child \<in> {''compound'', ''amod'', ''nmod''} \<or>
      (dep_of d child \<in> {''advmod'', ''npadvmod''} \<and> pos_of d token \<in> {''VERB'', ''AUX''})) \<and>
     pos_of d child \<notin> {''SCONJ'', ''CCONJ'', ''PART''}"

definition is_nested_modifier :: "doc \<Rightarrow> nat \<Rightarrow> bool" where
  "is_nested_modifier d g \<longleftrightarrow>
     dep_of d g \<in> {''compound'', ''nmod'', ''advmod'', ''amod'', ''npadvmod''}"

definition modifiers :: "doc \<Rightarrow> nat \<Rightarrow> nat list" where
  "modifiers d token =
     sort (concat (map (\<lambda>child.
       if is_modifier d token child then
         child # get_conj_ADJ d child @
         concat (map (\<lambda>grandchild.
           (if is_nested_modifier d grandchild
            then grandchild # get_conj_ADJ d child else []) @
           concat (map (\<lambda>grandgrandchild.
             if is_nested_modifier d grandgrandchild
             then grandgrandchild # get_conj_ADJ d child else [])
             (children d grandchild)))
           (children d child))
       else [])
       (children d token)))"

definition word :: "doc \<Rightarrow> bool \<Rightarrow> nat \<Rightarrow> string" where
  "word d lemmatize t = (if lemmatize then lemma_of d t else text_of d t)"

definition dets :: "doc \<Rightarrow> nat \<Rightarrow> nat list" where
  "dets d token =
     [child \<leftarrow> children d token.
        dep_of d child = ''det'' \<and> lemma_of d child \<notin> {''the'', ''a'', ''an''}]"

text \<open>
  One step of \<^verbatim>\<open>get_compound_parts\<close>, with the recursive call as the parameter \<open>rec\<close>:
  \<open>acl_parts\<close> is the loop over the \<^verbatim>\<open>acl\<close>/\<^verbatim>\<open>relcl\<close> children (markers, then the assembled
  subjects of the clause), \<open>prep_phrase\<close> the string built for one preposition.
\<close>

definition acl_parts ::
  "(nat \<Rightarrow> phrase option) \<Rightarrow> doc \<Rightarrow> bool \<Rightarrow> nat \<Rightarrow> (string list \<times> string list) option" where
  "acl_parts rec d lemmatize child =
     do {
       subs \<leftarrow> those (map rec [t \<leftarrow> children d child. dep_of d t = ''nsubj'']);
       Some (map (word d lemmatize) [t \<leftarrow> children d child. dep_of d t = ''mark''] @ map fst subs,
             concat (map snd subs))
     }"

definition prep_phrase :: "(nat \<Rightarrow> phrase option) \<Rightarrow> doc \<Rightarrow> nat \<Rightarrow> string option" where
  "prep_phrase rec d p =
     do {
       items \<leftarrow> those (map rec
         (concat (map (\<lambda>pobj. pobj # conjuncts_of d pobj)
            [child \<leftarrow> children d p. dep_of d child = ''pobj''])));
       Some (join (text_of d p # concat (map (\<lambda>(pobj_main, pobj_preps). pobj_main # pobj_preps) items)))
     }"

definition compound_parts_step ::
  "(nat \<Rightarrow> phrase option) \<Rightarrow> doc \<Rightarrow> nat \<Rightarrow> bool \<Rightarrow> phrase option" where
  "compound_parts_step rec d token lemmatize =
     do {
       acls \<leftarrow> those (map (acl_parts rec d lemmatize)
                 [child \<leftarrow> children d token. dep_of d child \<in> {''acl'', ''relcl''}]);
       preps \<leftarrow> those (map (prep_phrase rec d)
                 (concat (map (\<lambda>prep. prep # conjuncts_of d prep)
                    [child \<leftarrow> children d token. dep_of d child = ''prep''])));
       Some (join (map (word d lemmatize) (dets d token) @
                   concat (map fst acls) @
                   map (word d lemmatize) (modifiers d token) @
                   [word d lemmatize token]),
             concat (map snd acls) @ preps)
     }"

fun get_compound_parts :: "nat \<Rightarrow> doc \<Rightarrow> nat \<Rightarrow> bool \<Rightarrow> phrase option" where
  "get_compound_parts 0 d token lemmatize = None"
| "get_compound_parts (Suc n) d token lemmatize =
     compound_parts_step (\<lambda>t. get_compound_parts n d t lemmatize) d token lemmatize"

section \<open>Subjects and objects of one token\<close>

definition is_nominal :: "doc \<Rightarrow> nat \<Rightarrow> bool" where
  "is_nominal d t \<longleftrightarrow> pos_of d t \<in> {''NOUN'', ''PROPN'', ''PRON''}"

definition extract_subjects :: "nat \<Rightarrow> doc \<Rightarrow> nat \<Rightarrow> phrase list option" where
  "extract_subjects n d subject_token =
     those (map (\<lambda>t. get_compound_parts n d t False)
       ((if is_nominal d subject_token then [subject_token] else []) @
        [conj \<leftarrow> conjuncts_of d subject_token. is_nominal d conj]))"

definition object_phrase :: "nat \<Rightarrow> doc \<Rightarrow> nat \<Rightarrow> phrase option" where
  "object_phrase n d t =
     map_option (\<lambda>(main_part, prep_parts).
        (if dep_of d t = ''pobj'' then text_of d (head_of d t) @ '' '' @ main_part else main_part,
         prep_parts))
       (get_compound_parts n d t True)"

text \<open>
  The test \<^verbatim>\<open>object_token.dep_ in ('acomp')\<close> has a parenthesised string on its right,
  not a tuple, so Python's \<^verbatim>\<open>in\<close> is the substring test.
\<close>

definition py_in_str :: "string \<Rightarrow> string \<Rightarrow> bool" where
  "py_in_str x s \<longleftrightarrow> list_ex (\<lambda>i. take (length x) (drop i s) = x) [0..<Suc (length s)]"

definition extract_objects :: "nat \<Rightarrow> doc \<Rightarrow> nat \<Rightarrow> phrase list option" where
  "extract_objects n d object_token =
     those (map (object_phrase n d)
       ((if is_nominal d object_token \<or> py_in_str (dep_of d object_token) ''acomp''
         then [object_token] else []) @
        [conj \<leftarrow> conjuncts_of d object_token.
           pos_of d conj \<in> {''NOUN'', ''PROPN'', ''PRON'', ''ADJ''}]))"

section \<open>Conjunct chasing: \<^verbatim>\<open>get_conjuncts\<close>\<close>

text \<open>
  \<^verbatim>\<open>get_conjuncts(token, visited)\<close> adds to the set \<^verbatim>\<open>visited\<close> it is given, and the
  caller's loop sees the additions of an inner call. The model passes the set in and
  returns it with the list; a call without the second argument starts from the empty set.
\<close>

definition conjuncts_step ::
  "(nat \<Rightarrow> nat set \<Rightarrow> (nat list \<times> nat set) option) \<Rightarrow> doc \<Rightarrow> nat \<Rightarrow> nat set \<Rightarrow>
   (nat list \<times> nat set) option" where
  "conjuncts_step rec d token visited =
     fold (\<lambda>conj st.
             do {
               (conjuncts, vis) \<leftarrow> st;
               if conj \<notin> vis
               then do { (more, vis') \<leftarrow> rec conj vis; Some (conjuncts @ more, vis') }
               else Some (conjuncts, vis)
             })
       (conjuncts_of d token) (Some ([token], insert token visited))"

fun get_conjuncts :: "nat \<Rightarrow> doc \<Rightarrow> nat \<Rightarrow> nat set \<Rightarrow> (nat list \<times> nat set) option" where
  "get_conjuncts 0 d token visited = None"
| "get_conjuncts (Suc n) d token visited = conjuncts_step (get_conjuncts n d) d token visited"

section \<open>Clauses: \<^verbatim>\<open>extract_clause\<close>\<close>

definition extract_clause :: "doc \<Rightarrow> nat \<Rightarrow> string" where
  "extract_clause d token = join (map (lemma_of d) (sort (subtree d token)))"

section \<open>Verb phrases: \<^verbatim>\<open>get_verb_phrase\<close>\<close>

text \<open>
  The stop lists \<^verbatim>\<open>_VAGUE_AUX\<close> and \<^verbatim>\<open>_VAGUE_ADVMODS\<close> come from the module
  \<^verbatim>\<open>whodidwhat.resources\<close>; they are parameters here.
\<close>

record resources =
  VAGUE_AUX :: "string set"
  VAGUE_ADVMODS :: "string set"

definition is_aux :: "resources \<Rightarrow> doc \<Rightarrow> nat \<Rightarrow> bool" where
  "is_aux res d child \<longleftrightarrow>
     dep_of d child \<in> {''aux'', ''auxpass'', ''neg''} \<and> lemma_of d child \<notin> VAGUE_AUX res"

definition is_adverbial :: "resources \<Rightarrow> doc \<Rightarrow> nat \<Rightarrow> bool" where
  "is_adverbial res d child \<longleftrightarrow>
     dep_of d child \<in> {''advmod'', ''amod'', ''npadvmod''} \<and>
     pos_of d child \<notin> {''SCONJ'', ''CCONJ'', ''PART'', ''DET''} \<and>
     lemma_of d child \<notin> VAGUE_ADVMODS res"

text \<open>
  The contribution of one \<^verbatim>\<open>xcomp\<close> child: its lemma, then
  \<^verbatim>\<open>child_verb_phrase[1:]\<close>, the recursive result without its first element.
\<close>

definition xcomp_parts :: "(nat \<Rightarrow> string list option) \<Rightarrow> doc \<Rightarrow> nat \<Rightarrow> string list option" where
  "xcomp_parts rec d child =
     do { child_verb_phrase \<leftarrow> rec child; Some (lemma_of d child # drop 1 child_verb_phrase) }"

definition verb_phrase_step ::
  "(nat \<Rightarrow> string list option) \<Rightarrow> (nat \<Rightarrow> phrase option) \<Rightarrow> resources \<Rightarrow> doc \<Rightarrow> nat \<Rightarrow>
   string list option" where
  "verb_phrase_step rec compound res d verb =
     do {
       advs_before \<leftarrow> those (map compound [child \<leftarrow> lefts d verb. is_adverbial res d child]);
       advs_after \<leftarrow> those (map compound [child \<leftarrow> rights d verb. is_adverbial res d child]);
       xcomps \<leftarrow> extend_all (xcomp_parts rec d) [child \<leftarrow> children d verb. dep_of d child \<in> {''xcomp''}];
       Some [join (map (lemma_of d) [child \<leftarrow> lefts d verb. is_aux res d child] @
                   map fst advs_before @
                   [lemma_of d verb] @
                   map fst advs_after @
                   map (lemma_of d) [child \<leftarrow> rights d verb. is_aux res d child] @
                   xcomps)]
     }"

fun get_verb_phrase :: "resources \<Rightarrow> nat \<Rightarrow> doc \<Rightarrow> nat \<Rightarrow> string list option" where
  "get_verb_phrase res 0 d verb = None"
| "get_verb_phrase res (Suc n) d verb =
     verb_phrase_step (get_verb_phrase res n d) (\<lambda>child. get_compound_parts n d child True) res d verb"

section \<open>Subject resolution: \<^verbatim>\<open>get_verb_subjects\<close>\<close>

definition children_with :: "doc \<Rightarrow> nat \<Rightarrow> string set \<Rightarrow> nat list" where
  "children_with d t deps = [child \<leftarrow> children d t. dep_of d child \<in> deps]"

definition agent_pobjs :: "doc \<Rightarrow> nat \<Rightarrow> nat list" where
  "agent_pobjs d verb =
     concat (map (\<lambda>agent. children_with d agent {''pobj''}) (children_with d verb {''agent''}))"

definition ancestor_subjects :: "doc \<Rightarrow> nat \<Rightarrow> nat list" where
  "ancestor_subjects d verb =
     concat (map (\<lambda>ancestor. children_with d ancestor {''nsubj'', ''nsubjpass'', ''csubj''})
               (ancestors d verb))"

definition conj_nouns :: "doc \<Rightarrow> nat \<Rightarrow> nat list" where
  "conj_nouns d verb = [child \<leftarrow> children d verb. dep_of d child = ''conj'' \<and> is_nominal d child]"

definition is_imperative :: "doc \<Rightarrow> nat \<Rightarrow> bool" where
  "is_imperative d verb \<longleftrightarrow> mood_of d verb = [''Imp''] \<or> tag_of d verb = ''VB''"

definition verb_subjects_step ::
  "(nat \<Rightarrow> phrase list option) \<Rightarrow> nat \<Rightarrow> doc \<Rightarrow> nat \<Rightarrow> phrase list option" where
  "verb_subjects_step rec n d verb =
     (if dep_of d verb \<in> {''acl'', ''relcl''} then
        (if children_with d verb {''nsubj''} \<noteq> []
         then extend_all (extract_subjects n d) (children_with d verb {''nsubj''})
         else map_option (\<lambda>p. [p]) (get_compound_parts n d (head_of d verb) False))
      else
        do {
          direct \<leftarrow> extend_all (extract_subjects n d) (children_with d verb {''nsubj''});
          agents \<leftarrow> (if list_ex (\<lambda>child. dep_of d child = ''nsubjpass'') (children d verb)
                     then extend_all (extract_subjects n d) (agent_pobjs d verb)
                     else Some []);
          let subjects = direct @
                         map (\<lambda>csubj. (extract_clause d csubj, [])) (children_with d verb {''csubj''}) @
                         agents;
          subjects \<leftarrow> (if subjects = []
                       then first_nonempty (extract_subjects n d) (ancestor_subjects d verb)
                       else Some subjects);
          subjects \<leftarrow> (if subjects = [] \<and> dep_of d verb = ''conj'' \<and> pos_of d (head_of d verb) = ''VERB''
                       then rec (head_of d verb)
                       else Some subjects);
          nouns \<leftarrow> extend_all (extract_subjects n d) (conj_nouns d verb);
          let subjects = subjects @ nouns;
          Some (if subjects = [] \<and> head_of d verb = verb \<and> is_imperative d verb
                then [(''you'', [])] else subjects)
        })"

fun get_verb_subjects :: "nat \<Rightarrow> doc \<Rightarrow> nat \<Rightarrow> phrase list option" where
  "get_verb_subjects 0 d verb = None"
| "get_verb_subjects (Suc n) d verb = verb_subjects_step (get_verb_subjects n d) n d verb"

section \<open>Object resolution: \<^verbatim>\<open>get_verb_objects\<close>\<close>

definition process_objects :: "nat \<Rightarrow> doc \<Rightarrow> nat list \<Rightarrow> phrase list option" where
  "process_objects n d object_tokens = extend_all (extract_objects n d) object_tokens"

definition prep_objects :: "nat \<Rightarrow> doc \<Rightarrow> nat \<Rightarrow> phrase list option" where
  "prep_objects n d prep =
     do {
       (preps, visited) \<leftarrow> get_conjuncts n d prep {};
       extend_all (\<lambda>p. process_objects n d (children_with d p {''pobj''})) preps
     }"

definition xcomp_objects :: "(nat \<Rightarrow> phrase list option) \<Rightarrow> nat \<Rightarrow> doc \<Rightarrow> nat \<Rightarrow> phrase list option" where
  "xcomp_objects rec n d xcomp_child =
     do {
       found \<leftarrow> rec xcomp_child;
       if found \<noteq> [] then Some found
       else extend_all (extract_objects n d) (children_with d xcomp_child {''dobj'', ''attr'', ''oprd''})
     }"

definition verb_objects_step ::
  "(nat \<Rightarrow> phrase list option) \<Rightarrow> nat \<Rightarrow> doc \<Rightarrow> nat \<Rightarrow> phrase list option" where
  "verb_objects_step rec n d verb =
     do {
       direct \<leftarrow> process_objects n d (children_with d verb {''dobj'', ''attr'', ''oprd'', ''acomp''});
       indirect \<leftarrow> process_objects n d (children_with d verb {''iobj''});
       prepositional \<leftarrow> extend_all (prep_objects n d) (children_with d verb {''prep''});
       passive \<leftarrow> (if tag_of d verb \<in> {''VBN'', ''VBD''} \<and>
                      list_ex (\<lambda>child. dep_of d child = ''nsubjpass'') (children d verb)
                    then process_objects n d (children_with d verb {''nsubjpass''})
                    else Some []);
       npadvmod \<leftarrow> process_objects n d
                    [child \<leftarrow> children d verb.
                       dep_of d child = ''npadvmod'' \<and> pos_of d child \<in> {''PROPN'', ''PRON''}];
       ccomp \<leftarrow> extend_all
                  (\<lambda>child. extend_all (extract_subjects n d) (children_with d child {''nsubj'', ''nsubjpass''}))
                  (children_with d verb {''ccomp''});
       xcomp \<leftarrow> extend_all (xcomp_objects rec n d) (children_with d verb {''xcomp''});
       let objects = direct @ indirect @ prepositional @ passive @ npadvmod @ ccomp @ xcomp;
       if objects = []
       then first_nonempty rec [child \<leftarrow> children d verb. dep_of d child = ''conj'' \<and> pos_of d child = ''VERB'']
       else Some objects
     }"

fun get_verb_objects :: "nat \<Rightarrow> doc \<Rightarrow> nat \<Rightarrow> phrase list option" where
  "get_verb_objects 0 d verb = None"
| "get_verb_objects (Suc n) d verb = verb_objects_step (get_verb_objects n d) n d verb"

section \<open>The synonym test: \<^verbatim>\<open>are_synonyms\<close>\<close>

text \<open>
  WordNet is outside the repository: \<^verbatim>\<open>wn.synsets\<close> and \<^verbatim>\<open>Synset.lemma_names\<close> are the
  parameters \<open>synsets\<close> and \<open>lemma_names\<close>, over any type of synsets.
\<close>

definition are_synonyms ::
  "(string \<Rightarrow> 'syn list) \<Rightarrow> ('syn \<Rightarrow> string list) \<Rightarrow> string \<Rightarrow> string \<Rightarrow> bool" where
  "are_synonyms synsets lemma_names word1 word2 \<longleftrightarrow>
     list_ex (\<lambda>syn1.
       list_ex (\<lambda>syn2. syn1 = syn2 \<or> set (lemma_names syn1) \<inter> set (lemma_names syn2) \<noteq> {})
         (synsets word2))
       (synsets word1)"

section \<open>The relation table: \<^verbatim>\<open>extract_svos\<close>\<close>

text \<open>
  A row is the dictionary appended to \<^verbatim>\<open>data_rows\<close>, with its six keys; the data frame
  has the column names and the rows.
\<close>

record row =
  Node_1 :: string
  WDW :: string
  Node_2 :: string
  WDW2 :: string
  Hypergraph :: string
  Semantic_Syntactic :: int

record dataframe =
  df_columns :: "string list"
  df_rows :: "row list"

type_synonym svo = "phrase list \<times> string list \<times> phrase list"

text \<open>
  What the libraries do and the source does not say is a parameter too: \<open>str_svo\<close> is
  Python's \<^verbatim>\<open>str\<close> on a triple, \<open>list_set\<close> is \<^verbatim>\<open>list(set(xs))\<close>, whose order Python
  leaves open.
\<close>

record 'syn library =
  synsets :: "string \<Rightarrow> 'syn list"
  lemma_names :: "'syn \<Rightarrow> string list"
  str_svo :: "svo \<Rightarrow> string"
  list_set :: "string list \<Rightarrow> string list"

definition list_set_ok :: "(string list \<Rightarrow> string list) \<Rightarrow> bool" where
  "list_set_ok f \<longleftrightarrow> (\<forall>xs. distinct (f xs) \<and> set (f xs) = set xs)"

text \<open>The filter of the first loop of \<^verbatim>\<open>extract_svos\<close>.\<close>

definition qualifies :: "doc \<Rightarrow> nat \<Rightarrow> bool" where
  "qualifies d possible_verb \<longleftrightarrow>
     pos_of d possible_verb \<in> {''VERB'', ''AUX''} \<and>
     dep_of d possible_verb \<notin>
       {''aux'', ''auxpass'', ''amod'', ''npadvmod'', ''prep'', ''xcomp'', ''csubj''} \<and>
     \<not> (dep_of d possible_verb = ''conj'' \<and>
        dep_of d (head_of d possible_verb) \<in>
          {''aux'', ''auxpass'', ''amod'', ''prep'', ''xcomp'', ''csubj''})"

text \<open>\<^verbatim>\<open>itertools.combinations(xs, 2)\<close>.\<close>

fun combinations2 :: "'a list \<Rightarrow> ('a \<times> 'a) list" where
  "combinations2 [] = []"
| "combinations2 (x # xs) = map (Pair x) xs @ combinations2 xs"

definition mk_row :: "string \<Rightarrow> string \<Rightarrow> string \<Rightarrow> string \<Rightarrow> string \<Rightarrow> int \<Rightarrow> row" where
  "mk_row n1 r1 n2 r2 h s =
     \<lparr>Node_1 = n1, WDW = r1, Node_2 = n2, WDW2 = r2, Hypergraph = h, Semantic_Syntactic = s\<rparr>"

definition svo_rows :: "(svo \<Rightarrow> string) \<Rightarrow> svo \<Rightarrow> row list" where
  "svo_rows str svo =
     (case svo of (subjects, verbs, objects) \<Rightarrow>
        let hypergraph = str svo in
        concat (map (\<lambda>(subj, _). map (\<lambda>verb. mk_row subj ''Who'' verb ''Did'' hypergraph 0) verbs)
                  subjects) @
        concat (map (\<lambda>verb. map (\<lambda>(obj, _). mk_row verb ''Did'' obj ''What'' hypergraph 0) objects)
                  verbs) @
        (if length subjects > 1
         then map (\<lambda>((subj1, _), (subj2, _)). mk_row subj1 ''Who'' subj2 ''Who'' hypergraph 0)
                (combinations2 subjects)
         else []) @
        (if length objects > 1
         then map (\<lambda>((obj1, _), (obj2, _)). mk_row obj1 ''What'' obj2 ''What'' hypergraph 0)
                (combinations2 objects)
         else []))"

definition synonym_rows ::
  "'syn library \<Rightarrow> string \<Rightarrow> string list \<Rightarrow> row list" where
  "synonym_rows lib role nodes =
     map (\<lambda>(w1, w2). mk_row w1 role w2 role ''N/A'' 1)
       [(w1, w2) \<leftarrow> combinations2 nodes. are_synonyms (synsets lib) (lemma_names lib) w1 w2]"

definition svo_of :: "resources \<Rightarrow> nat \<Rightarrow> doc \<Rightarrow> nat \<Rightarrow> svo option" where
  "svo_of res n d possible_verb =
     do {
       subjects \<leftarrow> get_verb_subjects n d possible_verb;
       objects \<leftarrow> get_verb_objects n d possible_verb;
       verb_phrase \<leftarrow> get_verb_phrase res n d possible_verb;
       Some (subjects, verb_phrase, objects)
     }"

definition all_subjects :: "svo list \<Rightarrow> string list" where
  "all_subjects svo_triples = concat (map (\<lambda>svo. map fst (fst svo)) svo_triples)"

definition all_objects :: "svo list \<Rightarrow> string list" where
  "all_objects svo_triples = concat (map (\<lambda>svo. map fst (snd (snd svo))) svo_triples)"

definition table_columns :: "string list" where
  "table_columns = [''Node 1'', ''WDW'', ''Node 2'', ''WDW2'', ''Hypergraph'', ''Semantic-Syntactic'']"

definition build_table :: "'syn library \<Rightarrow> svo list \<Rightarrow> dataframe" where
  "build_table lib svo_triples =
     \<lparr>df_columns = table_columns,
      df_rows =
        concat (map (svo_rows (str_svo lib)) svo_triples) @
        synonym_rows lib ''Who'' (list_set lib (all_subjects svo_triples)) @
        synonym_rows lib ''What'' (list_set lib (all_objects svo_triples))\<rparr>"

definition svo_triples_of :: "resources \<Rightarrow> nat \<Rightarrow> doc \<Rightarrow> svo list option" where
  "svo_triples_of res n d =
     those (map (svo_of res n d) [possible_verb \<leftarrow> [0..<length d]. qualifies d possible_verb])"

definition extract_svos :: "resources \<Rightarrow> 'syn library \<Rightarrow> nat \<Rightarrow> doc \<Rightarrow> dataframe option" where
  "extract_svos res lib n d = map_option (build_table lib) (svo_triples_of res n d)"

section \<open>The qualifying filter as the specification words it\<close>

text \<open>
  The specification uses one set of seven labels for the token and for the head of a
  coordinated token. \<open>spec_qualifies\<close> is that reading, to be compared with
  \<open>qualifies\<close>, which is the condition of the code.
\<close>

definition spec_qualifies :: "doc \<Rightarrow> nat \<Rightarrow> bool" where
  "spec_qualifies d t \<longleftrightarrow>
     pos_of d t \<in> {''VERB'', ''AUX''} \<and>
     dep_of d t \<notin> {''aux'', ''auxpass'', ''amod'', ''npadvmod'', ''prep'', ''xcomp'', ''csubj''} \<and>
     \<not> (dep_of d t = ''conj'' \<and>
        dep_of d (head_of d t) \<in>
          {''aux'', ''auxpass'', ''amod'', ''npadvmod'', ''prep'', ''xcomp'', ''csubj''})"

section \<open>Sample documents\<close>

definition mk_token ::
  "string \<Rightarrow> string \<Rightarrow> string \<Rightarrow> string \<Rightarrow> string \<Rightarrow> nat \<Rightarrow> nat list \<Rightarrow> token" where
  "mk_token t l p g dp h cs =
     \<lparr>tok_text = t, tok_lemma = l, tok_pos = p, tok_tag = g, tok_dep = dp, tok_head = h,
      tok_conjuncts = cs, tok_mood = []\<rparr>"

definition ex_res :: resources where
  "ex_res = \<lparr>VAGUE_AUX = {''be''}, VAGUE_ADVMODS = {''very''}\<rparr>"

text \<open>
  A small thesaurus: \<^verbatim>\<open>car\<close> and \<^verbatim>\<open>automobile\<close> share synset 0, \<^verbatim>\<open>apple\<close> and
  \<^verbatim>\<open>pome\<close> share synset 1.
\<close>

definition ex_lib :: "nat library" where
  "ex_lib =
     \<lparr>synsets = (\<lambda>w. if w \<in> {''car'', ''automobile''} then [0]
                      else if w \<in> {''apple'', ''pome''} then [1] else []),
      lemma_names = (\<lambda>s. []),
      str_svo = (\<lambda>s. ''[...]''),
      list_set = remdups\<rparr>"

text \<open>\<^verbatim>\<open>Alice and Bob left\<close>\<close>

definition doc_alice_bob :: doc where
  "doc_alice_bob =
     [mk_token ''Alice'' ''Alice'' ''PROPN'' ''NNP'' ''nsubj'' 3 [2],
      mk_token ''and'' ''and'' ''CCONJ'' ''CC'' ''cc'' 0 [],
      mk_token ''Bob'' ''Bob'' ''PROPN'' ''NNP'' ''conj'' 0 [0],
      mk_token ''left'' ''leave'' ''VERB'' ''VBD'' ''ROOT'' 3 []]"

text \<open>
  \<^verbatim>\<open>He stayed running and jumping\<close>, with \<^verbatim>\<open>running\<close> attached as \<^verbatim>\<open>npadvmod\<close> and
  \<^verbatim>\<open>jumping\<close> coordinated with it.
\<close>

definition doc_stayed :: doc where
  "doc_stayed =
     [mk_token ''He'' ''he'' ''PRON'' ''PRP'' ''nsubj'' 1 [],
      mk_token ''stayed'' ''stay'' ''VERB'' ''VBD'' ''ROOT'' 1 [],
      mk_token ''running'' ''run'' ''VERB'' ''VBG'' ''npadvmod'' 1 [3],
      mk_token ''jumping'' ''jump'' ''VERB'' ''VBG'' ''conj'' 2 [2]]"

text \<open>\<^verbatim>\<open>She wants to not go\<close>\<close>

definition doc_wants :: doc where
  "doc_wants =
     [mk_token ''She'' ''she'' ''PRON'' ''PRP'' ''nsubj'' 1 [],
      mk_token ''wants'' ''want'' ''VERB'' ''VBZ'' ''ROOT'' 1 [],
      mk_token ''to'' ''to'' ''PART'' ''TO'' ''aux'' 4 [],
      mk_token ''not'' ''not'' ''PART'' ''RB'' ''neg'' 4 [],
      mk_token ''go'' ''go'' ''VERB'' ''VB'' ''xcomp'' 1 []]"

text \<open>\<^verbatim>\<open>The cat\<close>\<close>

definition doc_cat :: doc where
  "doc_cat =
     [mk_token ''The'' ''the'' ''DET'' ''DT'' ''det'' 1 [],
      mk_token ''cat'' ''cat'' ''NOUN'' ''NN'' ''ROOT'' 1 []]"


text \<open>\<^verbatim>\<open>The dogs of Alice chased cats in gardens\<close>\<close>

definition doc_dogs :: doc where
  "doc_dogs =
     [mk_token ''The'' ''the'' ''DET'' ''DT'' ''det'' 1 [],
      mk_token ''dogs'' ''dog'' ''NOUN'' ''NNS'' ''nsubj'' 4 [],
      mk_token ''of'' ''of'' ''ADP'' ''IN'' ''prep'' 1 [],
      mk_token ''Alice'' ''Alice'' ''PROPN'' ''NNP'' ''pobj'' 2 [],
      mk_token ''chased'' ''chase'' ''VERB'' ''VBD'' ''ROOT'' 4 [],
      mk_token ''cats'' ''cat'' ''NOUN'' ''NNS'' ''dobj'' 4 [],
      mk_token ''in'' ''in'' ''ADP'' ''IN'' ''prep'' 4 [],
      mk_token ''gardens'' ''garden'' ''NOUN'' ''NNS'' ''pobj'' 6 []]"

text \<open>One verb, labelled \<^verbatim>\<open>conj\<close>, that is its own head\<close>

definition doc_loop :: doc where
  "doc_loop = [mk_token ''run'' ''run'' ''VERB'' ''VBP'' ''conj'' 0 []]"


text \<open>\<^verbatim>\<open>The cakes that were eaten by Alice\<close>, a noun with a passive relative clause\<close>

definition doc_cake_relcl :: doc where
  "doc_cake_relcl =
     [mk_token ''The'' ''the'' ''DET'' ''DT'' ''det'' 1 [],
      mk_token ''cakes'' ''cake'' ''NOUN'' ''NNS'' ''ROOT'' 1 [],
      mk_token ''that'' ''that'' ''PRON'' ''WDT'' ''nsubjpass'' 4 [],
      mk_token ''were'' ''be'' ''AUX'' ''VBD'' ''auxpass'' 4 [],
      mk_token ''eaten'' ''eat'' ''VERB'' ''VBN'' ''relcl'' 1 [],
      mk_token ''by'' ''by'' ''ADP'' ''IN'' ''agent'' 4 [],
      mk_token ''Alice'' ''Alice'' ''PROPN'' ''NNP'' ''pobj'' 5 []]"

text \<open>\<^verbatim>\<open>The cakes Alice baked\<close>, a noun with a relative clause that has its own subject\<close>

definition doc_baked :: doc where
  "doc_baked =
     [mk_token ''The'' ''the'' ''DET'' ''DT'' ''det'' 1 [],
      mk_token ''cakes'' ''cake'' ''NOUN'' ''NNS'' ''ROOT'' 1 [],
      mk_token ''Alice'' ''Alice'' ''PROPN'' ''NNP'' ''nsubj'' 3 [],
      mk_token ''baked'' ''bake'' ''VERB'' ''VBD'' ''relcl'' 1 []]"

section \<open>Counting rows\<close>


text \<open>The rows with the given role on both sides that link the strings \<open>a\<close> and \<open>b\<close>.\<close>

definition links :: "string \<Rightarrow> string \<Rightarrow> string \<Rightarrow> row list \<Rightarrow> row list" where
  "links role a b rows =
     [r \<leftarrow> rows. WDW r = role \<and> WDW2 r = role \<and>
                  ((Node_1 r = a \<and> Node_2 r = b) \<or> (Node_1 r = b \<and> Node_2 r = a))]"

section \<open>Word forms\<close>

text \<open>
  A document is in order when every head and every conjunct is a token of the document.
  \<open>phrase_over W s\<close> says that the string \<open>s\<close> is a non-empty sequence of words of
  \<open>W\<close> joined by single spaces; \<open>assembled_from\<close> says it of a phrase: the main string
  is made of the word forms of the mode, the prepositional strings of those and of surface
  forms (the preposition itself is always taken in its surface form).
\<close>

definition doc_ok :: "doc \<Rightarrow> bool" where
  "doc_ok d \<longleftrightarrow>
     list_all (\<lambda>t. head_of d t < length d \<and> list_all (\<lambda>c. c < length d) (conjuncts_of d t))
       [0..<length d]"

definition surface_forms :: "doc \<Rightarrow> string set" where
  "surface_forms d = set (map tok_text d)"

definition lemma_forms :: "doc \<Rightarrow> string set" where
  "lemma_forms d = set (map tok_lemma d)"

definition word_forms :: "doc \<Rightarrow> bool \<Rightarrow> string set" where
  "word_forms d lemmatize = (if lemmatize then lemma_forms d else surface_forms d)"

definition phrase_over :: "string set \<Rightarrow> string \<Rightarrow> bool" where
  "phrase_over W s \<longleftrightarrow> (\<exists>ws. ws \<noteq> [] \<and> set ws \<subseteq> W \<and> s = join ws)"

definition assembled_from :: "doc \<Rightarrow> bool \<Rightarrow> phrase \<Rightarrow> bool" where
  "assembled_from d lemmatize p \<longleftrightarrow>
     phrase_over (word_forms d lemmatize) (fst p) \<and>
     (\<forall>s \<in> set (snd p). phrase_over (surface_forms d \<union> word_forms d lemmatize) s)"

section \<open>Ranked documents\<close>

text \<open>
  The head links of a parse form a forest. \<open>ranked d rk N\<close> says so with a rank below
  \<open>N\<close> for every token: the rank of a token is smaller than that of its head, a root (its
  own head) is not labelled \<^verbatim>\<open>conj\<close>, and the conjuncts of a token that is not labelled
  \<^verbatim>\<open>conj\<close> (the first of its coordination) have a smaller rank than the token.
\<close>

definition ranked :: "doc \<Rightarrow> (nat \<Rightarrow> nat) \<Rightarrow> nat \<Rightarrow> bool" where
  "ranked d rk N \<longleftrightarrow>
     list_all (\<lambda>t. rk t < N \<and>
                   (if head_of d t = t then dep_of d t \<noteq> ''conj'' else rk t < rk (head_of d t)) \<and>
                   (dep_of d t = ''conj'' \<or> list_all (\<lambda>c. rk c < rk t) (conjuncts_of d t)))
       [0..<length d]"

section \<open>Further sample documents\<close>

text \<open>
  \<^verbatim>\<open>Nights running and jumping rope\<close>: the only verbs are the \<^verbatim>\<open>npadvmod\<close> token
  \<^verbatim>\<open>running\<close> and its conjunct \<^verbatim>\<open>jumping\<close>.
\<close>

definition doc_night :: doc where
  "doc_night =
     [mk_token ''Nights'' ''night'' ''NOUN'' ''NNS'' ''ROOT'' 0 [],
      mk_token ''running'' ''run'' ''VERB'' ''VBG'' ''npadvmod'' 0 [2],
      mk_token ''jumping'' ''jump'' ''VERB'' ''VBG'' ''conj'' 1 [1],
      mk_token ''rope'' ''rope'' ''NOUN'' ''NN'' ''dobj'' 2 []]"

text \<open>
  Three clauses, \<^verbatim>\<open>car crushed apples\<close>, \<^verbatim>\<open>automobile crushed pomes\<close>,
  \<^verbatim>\<open>car crushed apples\<close>: synonymous subjects and synonymous objects, one of each twice.
\<close>

definition doc_crushed :: doc where
  "doc_crushed =
     [mk_token ''car'' ''car'' ''NOUN'' ''NN'' ''nsubj'' 1 [],
      mk_token ''crushed'' ''crush'' ''VERB'' ''VBD'' ''ROOT'' 1 [],
      mk_token ''apples'' ''apple'' ''NOUN'' ''NNS'' ''dobj'' 1 [],
      mk_token ''automobile'' ''automobile'' ''NOUN'' ''NN'' ''nsubj'' 4 [],
      mk_token ''crushed'' ''crush'' ''VERB'' ''VBD'' ''ROOT'' 4 [],
      mk_token ''pomes'' ''pome'' ''NOUN'' ''NNS'' ''dobj'' 4 [],
      mk_token ''car'' ''car'' ''NOUN'' ''NN'' ''nsubj'' 7 [],
      mk_token ''crushed'' ''crush'' ''VERB'' ''VBD'' ''ROOT'' 7 [],
      mk_token ''apples'' ''apple'' ''NOUN'' ''NNS'' ''dobj'' 7 []]"

text \<open>\<^verbatim>\<open>Eating cakes pleases Alice\<close>, with a clausal subject.\<close>

definition doc_eating :: doc where
  "doc_eating =
     [mk_token ''Eating'' ''eat'' ''VERB'' ''VBG'' ''csubj'' 2 [],
      mk_token ''cakes'' ''cake'' ''NOUN'' ''NNS'' ''dobj'' 0 [],
      mk_token ''pleases'' ''please'' ''VERB'' ''VBZ'' ''ROOT'' 2 [],
      mk_token ''Alice'' ''Alice'' ''PROPN'' ''NNP'' ''dobj'' 2 []]"

text \<open>\<^verbatim>\<open>Close the door\<close>, an imperative.\<close>

definition doc_close :: doc where
  "doc_close =
     [mk_token ''Close'' ''close'' ''VERB'' ''VB'' ''ROOT'' 0 [],
      mk_token ''the'' ''the'' ''DET'' ''DT'' ''det'' 2 [],
      mk_token ''door'' ''door'' ''NOUN'' ''NN'' ''dobj'' 0 []]"

text \<open>\<^verbatim>\<open>I think dogs left\<close>, with a clausal complement.\<close>

definition doc_think :: doc where
  "doc_think =
     [mk_token ''I'' ''I'' ''PRON'' ''PRP'' ''nsubj'' 1 [],
      mk_token ''think'' ''think'' ''VERB'' ''VBP'' ''ROOT'' 1 [],
      mk_token ''dogs'' ''dog'' ''NOUN'' ''NNS'' ''nsubj'' 3 [],
      mk_token ''left'' ''leave'' ''VERB'' ''VBD'' ''ccomp'' 1 []]"

section \<open>Strings of the document\<close>

text \<open>
  The subject strings of a document are the main strings of the subjects that
  \<open>get_verb_subjects\<close> returns at the tokens that \<open>extract_svos\<close> keeps; the object
  strings are those of \<open>get_verb_objects\<close>.
\<close>

definition subject_strings :: "nat \<Rightarrow> doc \<Rightarrow> string set" where
  "subject_strings n d =
     {fst p | v subjects p.
        v < length d \<and> qualifies d v \<and> get_verb_subjects n d v = Some subjects \<and> p \<in> set subjects}"

definition object_strings :: "nat \<Rightarrow> doc \<Rightarrow> string set" where
  "object_strings n d =
     {fst p | v objects p.
        v < length d \<and> qualifies d v \<and> get_verb_objects n d v = Some objects \<and> p \<in> set objects}"

section \<open>The direct-subject rule\<close>




section \<open>Properties\<close>

subsection \<open>Sequencing helpers\<close>

lemma list_set_ok_remdups: "list_set_ok remdups"
  by (simp add: list_set_ok_def)

lemma list_set_Nil: "list_set_ok f \<Longrightarrow> f [] = []"
proof -
  assume "list_set_ok f"
  then have "set (f []) = set []"
    unfolding list_set_ok_def by blast
  then show ?thesis by simp
qed

subsection \<open>The qualifying filter\<close>

text \<open>
  The condition of the code and the reading of the specification differ on one kind of
  token only: a coordinated verb whose head is labelled \<^verbatim>\<open>npadvmod\<close>.
\<close>

lemma qualifies_iff_spec_or_npadvmod_head:
  "qualifies d t \<longleftrightarrow>
     spec_qualifies d t \<or>
     (pos_of d t \<in> {''VERB'', ''AUX''} \<and> dep_of d t = ''conj'' \<and>
      dep_of d (head_of d t) = ''npadvmod'')"
  by (auto simp: qualifies_def spec_qualifies_def)

text \<open>
  Claim C1. A token is extracted iff it is a VERB or AUX, its label is not one of the seven
  labels aux, auxpass, amod, npadvmod, prep, xcomp, csubj, and it is not a conj whose head
  carries one of those same seven labels. The code tests the head against six labels only
  (npadvmod is missing): in \<open>doc_stayed\<close> the token \<^verbatim>\<open>jumping\<close> is a conj of an npadvmod
  head, the claim excludes it, and the code extracts it and emits the triple with the
  verb phrase \<^verbatim>\<open>jump\<close>.
\<close>

theorem qualifies_conj_of_npadvmod:
  "qualifies doc_stayed 3 \<and> \<not> spec_qualifies doc_stayed 3 \<and>
   svo_triples_of ex_res 3 doc_stayed =
     Some [([(''He'', [])], [''stay run''], []), ([(''He'', [])], [''jump''], [])]"
  by code_simp

subsection \<open>Documents without action tokens\<close>

text \<open>
  When the filter of the code keeps no token, no resolver is called: extraction returns,
  whatever the recursion bound, the table with the six columns and no rows.
\<close>

lemma extract_svos_no_kept_tokens:
  assumes "list_set_ok (list_set lib)" and "\<forall>v<length d. \<not> qualifies d v"
  shows "extract_svos res lib n d =
           Some \<lparr>df_columns = [''Node 1'', ''WDW'', ''Node 2'', ''WDW2'', ''Hypergraph'',
                               ''Semantic-Syntactic''],
                 df_rows = []\<rparr>"
proof -
  have "[v \<leftarrow> [0..<length d]. qualifies d v] = []"
    using assms(2) by (simp add: filter_empty_conv)
  then have "svo_triples_of res n d = Some []"
    by (simp add: svo_triples_of_def)
  moreover have "list_set lib [] = []"
    using assms(1) by (rule list_set_Nil)
  ultimately show ?thesis
    by (simp add: extract_svos_def build_table_def table_columns_def all_subjects_def
        all_objects_def synonym_rows_def)
qed

lemma extract_svos_doc_cat:
  "list_set_ok (list_set ex_lib) \<and>
   [v \<leftarrow> [0..<length doc_cat]. qualifies doc_cat v] = [] \<and>
   extract_svos ex_res ex_lib 0 doc_cat =
     Some \<lparr>df_columns = [''Node 1'', ''WDW'', ''Node 2'', ''WDW2'', ''Hypergraph'',
                         ''Semantic-Syntactic''],
           df_rows = []\<rparr>"
proof -
  have a: "list_set_ok (list_set ex_lib)"
    by (simp add: ex_lib_def list_set_ok_remdups)
  have b: "\<forall>v<length doc_cat. \<not> qualifies doc_cat v"
    by (simp add: doc_cat_def qualifies_def mk_token_def less_Suc_eq)
  have c: "[v \<leftarrow> [0..<length doc_cat]. qualifies doc_cat v] = []"
    using b by (simp add: filter_empty_conv)
  show ?thesis
    using a c extract_svos_no_kept_tokens [OF a b, of ex_res 0] by simp
qed

text \<open>
  Claim C9. For a document with no qualifying action token, extraction returns an empty
  table with the six columns. A qualifying action token is, in the words of claim C1, a
  VERB or AUX outside the seven labels that is not a conj of a head carrying one of the
  seven: \<open>spec_qualifies\<close>. In \<open>doc_night\<close> no token qualifies: \<^verbatim>\<open>running\<close> is labelled
  \<^verbatim>\<open>npadvmod\<close> and \<^verbatim>\<open>jumping\<close> is a conj of it. The code tests the head against six
  labels only, keeps \<^verbatim>\<open>jumping\<close>, and the table is not empty: it has the row of
  \<^verbatim>\<open>jump\<close> and \<^verbatim>\<open>rope\<close>.
\<close>

theorem extract_svos_only_conj_of_npadvmod:
  "[v \<leftarrow> [0..<length doc_night]. spec_qualifies doc_night v] = [] \<and>
   [v \<leftarrow> [0..<length doc_night]. qualifies doc_night v] = [2] \<and>
   extract_svos ex_res ex_lib 3 doc_night =
     Some \<lparr>df_columns = table_columns,
           df_rows = [mk_row ''jump'' ''Did'' ''rope'' ''What'' ''[...]'' 0]\<rparr>"
  by code_simp

subsection \<open>Roles of the rows\<close>

lemma svo_rows_roles:
  "r \<in> set (svo_rows str svo) \<Longrightarrow>
     (WDW r, WDW2 r) \<in>
       {(''Who'', ''Did''), (''Did'', ''What''), (''Who'', ''Who''), (''What'', ''What'')} \<and>
     Semantic_Syntactic r = 0 \<and> Hypergraph r = str svo"
  by (cases svo) (auto simp: svo_rows_def mk_row_def Let_def split: if_splits)

lemma synonym_rows_roles:
  "r \<in> set (synonym_rows lib role nodes) \<Longrightarrow>
     WDW r = role \<and> WDW2 r = role \<and> Semantic_Syntactic r = 1 \<and> Hypergraph r = ''N/A''"
  by (auto simp: synonym_rows_def mk_row_def)

lemma extract_svos_Some:
  "extract_svos res lib n d = Some t \<longleftrightarrow>
     (\<exists>svo_triples. svo_triples_of res n d = Some svo_triples \<and> t = build_table lib svo_triples)"
  by (auto simp: extract_svos_def)

text \<open>
  Claim C2 says that every row has its first role in Who, Did and its second role in
  Did, What. It fails on \<^verbatim>\<open>Alice and Bob left\<close>: the two subjects give a row with the
  roles Who and Who.
\<close>

theorem extract_svos_roles_counterexample:
  "extract_svos ex_res ex_lib 3 doc_alice_bob =
     Some \<lparr>df_columns = table_columns,
           df_rows = [mk_row ''Alice'' ''Who'' ''leave'' ''Did'' ''[...]'' 0,
                      mk_row ''Bob'' ''Who'' ''leave'' ''Did'' ''[...]'' 0,
                      mk_row ''Alice'' ''Who'' ''Bob'' ''Who'' ''[...]'' 0]\<rparr> \<and>
   WDW2 (mk_row ''Alice'' ''Who'' ''Bob'' ''Who'' ''[...]'' 0) \<notin> {''Did'', ''What''}"
  by code_simp

text \<open>
  Claim C2, amended. Every row of the returned table has one of the four role pairs
  (Who, Did), (Did, What), (Who, Who), (What, What): the first role is Who, Did or What
  and the second is Did, What or Who.
\<close>

theorem extract_svos_role_pairs:
  assumes "extract_svos res lib n d = Some t" and "r \<in> set (df_rows t)"
  shows "(WDW r, WDW2 r) \<in>
           {(''Who'', ''Did''), (''Did'', ''What''), (''Who'', ''Who''), (''What'', ''What'')}"
proof -
  obtain svo_triples where t: "t = build_table lib svo_triples"
    using assms(1) by (auto simp: extract_svos_Some)
  from assms(2) consider
      svo where "svo \<in> set svo_triples" "r \<in> set (svo_rows (str_svo lib) svo)"
    | "r \<in> set (synonym_rows lib ''Who'' (list_set lib (all_subjects svo_triples)))"
    | "r \<in> set (synonym_rows lib ''What'' (list_set lib (all_objects svo_triples)))"
    unfolding t build_table_def by auto
  then show ?thesis
  proof cases
    case 1
    then show ?thesis using svo_rows_roles by blast
  next
    case 2
    then show ?thesis using synonym_rows_roles [OF 2] by simp
  next
    case 3
    then show ?thesis using synonym_rows_roles [OF 3] by simp
  qed
qed

theorem extract_svos_role_pairs_witness:
  "extract_svos ex_res ex_lib 3 doc_alice_bob =
     Some \<lparr>df_columns = table_columns,
           df_rows = [mk_row ''Alice'' ''Who'' ''leave'' ''Did'' ''[...]'' 0,
                      mk_row ''Bob'' ''Who'' ''leave'' ''Did'' ''[...]'' 0,
                      mk_row ''Alice'' ''Who'' ''Bob'' ''Who'' ''[...]'' 0]\<rparr> \<and>
   (WDW (mk_row ''Alice'' ''Who'' ''Bob'' ''Who'' ''[...]'' 0),
    WDW2 (mk_row ''Alice'' ''Who'' ''Bob'' ''Who'' ''[...]'' 0)) \<in>
      {(''Who'', ''Did''), (''Did'', ''What''), (''Who'', ''Who''), (''What'', ''What'')}"
proof -
  let ?r = "mk_row ''Alice'' ''Who'' ''Bob'' ''Who'' ''[...]'' 0"
  let ?t = "\<lparr>df_columns = table_columns,
             df_rows = [mk_row ''Alice'' ''Who'' ''leave'' ''Did'' ''[...]'' 0,
                        mk_row ''Bob'' ''Who'' ''leave'' ''Did'' ''[...]'' 0,
                        ?r]\<rparr>"
  have a: "extract_svos ex_res ex_lib 3 doc_alice_bob = Some ?t"
    by code_simp
  have b: "?r \<in> set (df_rows ?t)"
    by simp
  show ?thesis
    using a extract_svos_role_pairs [OF a b] by simp
qed

subsection \<open>Verb phrases\<close>

lemma get_verb_phrase_singleton:
  "get_verb_phrase res n d verb = Some verbs \<Longrightarrow> \<exists>s. verbs = [s]"
  by (cases n) (auto simp: verb_phrase_step_def split: bind_splits)

text \<open>
  Whatever the recursive call returns for an \<^verbatim>\<open>xcomp\<close> child, the slice
  \<^verbatim>\<open>child_verb_phrase[1:]\<close> of that one-element list is empty: the child contributes its
  lemma and nothing else.
\<close>

lemma xcomp_parts_lemma_only:
  "get_verb_phrase res n d child = Some child_verb_phrase \<Longrightarrow>
   xcomp_parts (get_verb_phrase res n d) d child = Some [lemma_of d child]"
  using get_verb_phrase_singleton [of res n d child child_verb_phrase]
  by (auto simp: xcomp_parts_def)

text \<open>
  Claim C6. The verb phrase is a one-element list, and for each \<^verbatim>\<open>xcomp\<close> child the string
  has the child's lemma followed by the remainder of the child's own verb phrase
  (its auxiliaries, negation and adverbial modifiers). In \<^verbatim>\<open>She wants to not go\<close> the
  phrase of \<^verbatim>\<open>go\<close> is \<^verbatim>\<open>to not go\<close>, and the phrase of \<^verbatim>\<open>wants\<close> is \<^verbatim>\<open>want go\<close>: the
  auxiliary and the negation of the \<^verbatim>\<open>xcomp\<close> verb are lost.
\<close>

theorem get_verb_phrase_xcomp_drops_modifiers:
  "get_verb_phrase ex_res 3 doc_wants 4 = Some [''to not go''] \<and>
   get_verb_phrase ex_res 3 doc_wants 1 = Some [''want go'']"
  by code_simp

subsection \<open>The cross product of one token\<close>



subsection \<open>Loops over tokens\<close>

lemma those_map_Some_mem:
  "those (map f xs) = Some ys \<Longrightarrow> x \<in> set xs \<Longrightarrow> \<exists>y. f x = Some y \<and> y \<in> set ys"
  by (induction xs arbitrary: ys) (auto split: option.splits)

lemma those_map_Some_set:
  "those (map f xs) = Some ys \<Longrightarrow> y \<in> set ys \<Longrightarrow> \<exists>x \<in> set xs. f x = Some y"
  by (induction xs arbitrary: ys) (auto split: option.splits)

lemma children_in_range: "c \<in> set (children d t) \<Longrightarrow> c < length d"
  by (auto simp: children_def)

lemma children_with_in_range: "c \<in> set (children_with d t deps) \<Longrightarrow> c < length d"
  by (auto simp: children_with_def dest: children_in_range)


subsection \<open>Passive voice\<close>




subsection \<open>Synonym rows\<close>

lemma are_synonyms_sym:
  "are_synonyms syns names a b = are_synonyms syns names b a"
  unfolding are_synonyms_def list_ex_iff by (metis Int_commute)

lemma combinations2_mem:
  "(u, v) \<in> set (combinations2 xs) \<Longrightarrow> u \<in> set xs \<and> v \<in> set xs"
  by (induction xs) auto

lemma distinct_filter_eq_one:
  "distinct xs \<Longrightarrow> b \<in> set xs \<Longrightarrow> length [y \<leftarrow> xs. y = b] = 1"
  by (induction xs) (auto simp: filter_empty_conv)

lemma filter_pairs_none:
  "a \<notin> set xs \<Longrightarrow> [p \<leftarrow> combinations2 xs. p = (a, b) \<or> p = (b, a)] = []"
  by (auto simp: filter_empty_conv dest: combinations2_mem)

lemma combinations2_pair_once:
  "distinct xs \<Longrightarrow> a \<in> set xs \<Longrightarrow> b \<in> set xs \<Longrightarrow> a \<noteq> b \<Longrightarrow>
   length [p \<leftarrow> combinations2 xs. p = (a, b) \<or> p = (b, a)] = 1"
proof (induction xs)
  case Nil
  then show ?case by simp
next
  case (Cons x xs)
  consider "x = a" | "x = b" | "x \<noteq> a" "x \<noteq> b" by blast
  then show ?case
  proof cases
    case 1
    then have b: "b \<in> set xs" and a: "a \<notin> set xs" and d: "distinct xs"
      using Cons.prems by auto
    have "[p \<leftarrow> map (Pair x) xs. p = (a, b) \<or> p = (b, a)] = map (Pair a) [y \<leftarrow> xs. y = b]"
      using 1 Cons.prems(4) by (induction xs) auto
    then show ?thesis
      using filter_pairs_none [OF a, of b] distinct_filter_eq_one [OF d b] by simp
  next
    case 2
    then have a: "a \<in> set xs" and b: "b \<notin> set xs" and d: "distinct xs"
      using Cons.prems by auto
    have "[p \<leftarrow> map (Pair x) xs. p = (a, b) \<or> p = (b, a)] = map (Pair b) [y \<leftarrow> xs. y = a]"
      using 2 Cons.prems(4) by (induction xs) auto
    moreover have "[p \<leftarrow> combinations2 xs. p = (a, b) \<or> p = (b, a)] = []"
      using filter_pairs_none [OF b, of a] by (simp add: disj_commute)
    ultimately show ?thesis
      using distinct_filter_eq_one [OF d a] by simp
  next
    case 3
    then have "[p \<leftarrow> map (Pair x) xs. p = (a, b) \<or> p = (b, a)] = []"
      by (auto simp: filter_empty_conv)
    then show ?thesis
      using Cons 3 by simp
  qed
qed

lemma links_map_rows:
  "length (links role a b (map (\<lambda>(w1, w2). mk_row w1 role w2 role h s) ps)) =
   length [p \<leftarrow> ps. p = (a, b) \<or> p = (b, a)]"
  by (induction ps) (auto simp: links_def mk_row_def)

lemma links_other_role:
  "role \<noteq> role' \<Longrightarrow> links role a b (synonym_rows lib role' nodes) = []"
  by (auto simp: links_def synonym_rows_def mk_row_def filter_empty_conv)

lemma links_synonym_rows:
  assumes "distinct nodes" "a \<in> set nodes" "b \<in> set nodes" "a \<noteq> b"
    and "are_synonyms (synsets lib) (lemma_names lib) a b"
  shows "length (links role a b (synonym_rows lib role nodes)) = 1"
proof -
  have sym: "are_synonyms (synsets lib) (lemma_names lib) b a"
    using assms(5) are_synonyms_sym by blast
  have "[p \<leftarrow> [(w1, w2) \<leftarrow> combinations2 nodes. are_synonyms (synsets lib) (lemma_names lib) w1 w2].
          p = (a, b) \<or> p = (b, a)] =
        [p \<leftarrow> combinations2 nodes. p = (a, b) \<or> p = (b, a)]"
    unfolding filter_filter using assms(5) sym by (intro filter_cong) auto
  then show ?thesis
    unfolding synonym_rows_def links_map_rows
    using combinations2_pair_once [OF assms(1-4)] by simp
qed

lemma links_append: "links role a b (xs @ ys) = links role a b xs @ links role a b ys"
  by (simp add: links_def)

lemma subject_stringsI:
  "v < length d \<Longrightarrow> qualifies d v \<Longrightarrow> get_verb_subjects n d v = Some subjects \<Longrightarrow>
   p \<in> set subjects \<Longrightarrow> fst p \<in> subject_strings n d"
  unfolding subject_strings_def by blast

lemma object_stringsI:
  "v < length d \<Longrightarrow> qualifies d v \<Longrightarrow> get_verb_objects n d v = Some objects \<Longrightarrow>
   p \<in> set objects \<Longrightarrow> fst p \<in> object_strings n d"
  unfolding object_strings_def by blast

lemma svo_of_Some:
  "svo_of res n d v = Some svo \<longleftrightarrow>
     get_verb_subjects n d v = Some (fst svo) \<and> get_verb_phrase res n d v = Some (fst (snd svo)) \<and>
     get_verb_objects n d v = Some (snd (snd svo))"
  by (cases svo) (auto simp: svo_of_def split: bind_splits)

lemma all_subjects_eq:
  assumes "svo_triples_of res n d = Some svo_triples"
  shows "set (all_subjects svo_triples) = subject_strings n d"
proof (intro set_eqI iffI)
  fix a assume "a \<in> set (all_subjects svo_triples)"
  then obtain svo p where svo: "svo \<in> set svo_triples" "p \<in> set (fst svo)" "a = fst p"
    by (auto simp: all_subjects_def)
  from those_map_Some_set [OF assms [unfolded svo_triples_of_def] svo(1)]
  obtain v where "v < length d" "qualifies d v" "svo_of res n d v = Some svo"
    by auto
  then show "a \<in> subject_strings n d"
    using svo(2,3) subject_stringsI svo_of_Some by blast
next
  fix a assume "a \<in> subject_strings n d"
  then obtain v subjects p where v: "v < length d" "qualifies d v"
    "get_verb_subjects n d v = Some subjects" "p \<in> set subjects" "a = fst p"
    unfolding subject_strings_def by blast
  then have "v \<in> set [possible_verb \<leftarrow> [0..<length d]. qualifies d possible_verb]"
    by simp
  from those_map_Some_mem [OF assms [unfolded svo_triples_of_def] this]
  obtain svo where "svo_of res n d v = Some svo" "svo \<in> set svo_triples"
    by blast
  then show "a \<in> set (all_subjects svo_triples)"
    using v(3,4,5) by (force simp: all_subjects_def svo_of_Some)
qed

lemma all_objects_eq:
  assumes "svo_triples_of res n d = Some svo_triples"
  shows "set (all_objects svo_triples) = object_strings n d"
proof (intro set_eqI iffI)
  fix a assume "a \<in> set (all_objects svo_triples)"
  then obtain svo p where svo: "svo \<in> set svo_triples" "p \<in> set (snd (snd svo))" "a = fst p"
    by (auto simp: all_objects_def)
  from those_map_Some_set [OF assms [unfolded svo_triples_of_def] svo(1)]
  obtain v where "v < length d" "qualifies d v" "svo_of res n d v = Some svo"
    by auto
  then show "a \<in> object_strings n d"
    using svo(2,3) object_stringsI svo_of_Some by blast
next
  fix a assume "a \<in> object_strings n d"
  then obtain v objects p where v: "v < length d" "qualifies d v"
    "get_verb_objects n d v = Some objects" "p \<in> set objects" "a = fst p"
    unfolding object_strings_def by blast
  then have "v \<in> set [possible_verb \<leftarrow> [0..<length d]. qualifies d possible_verb]"
    by simp
  from those_map_Some_mem [OF assms [unfolded svo_triples_of_def] this]
  obtain svo where "svo_of res n d v = Some svo" "svo \<in> set svo_triples"
    by blast
  then show "a \<in> set (all_objects svo_triples)"
    using v(3,4,5) by (force simp: all_objects_def svo_of_Some)
qed

lemma combinations2_distinct:
  "distinct xs \<Longrightarrow> (u, v) \<in> set (combinations2 xs) \<Longrightarrow> u \<noteq> v"
  by (induction xs) (auto dest: combinations2_mem)

lemma synonym_rows_mem:
  assumes "distinct nodes" "r \<in> set (synonym_rows lib role nodes)"
  shows "WDW r = role \<and> WDW2 r = role \<and> Node_1 r \<in> set nodes \<and> Node_2 r \<in> set nodes \<and>
         Node_1 r \<noteq> Node_2 r \<and>
         are_synonyms (synsets lib) (lemma_names lib) (Node_1 r) (Node_2 r)"
  using assms(2) combinations2_distinct [OF assms(1)]
  by (auto simp: synonym_rows_def mk_row_def dest: combinations2_mem)

lemma synonym_rows_of_table:
  assumes "list_set_ok (list_set lib)"
    and "extract_svos res lib n d = Some t"
  shows "\<exists>syntactic semantic.
           df_rows t = syntactic @ semantic \<and>
           (\<forall>r \<in> set syntactic. Semantic_Syntactic r = 0) \<and>
           (\<forall>r \<in> set semantic. Semantic_Syntactic r = 1 \<and> Hypergraph r = ''N/A'') \<and>
           (\<forall>a b. a \<in> subject_strings n d \<and> b \<in> subject_strings n d \<and>
                  a \<noteq> b \<and> are_synonyms (synsets lib) (lemma_names lib) a b \<longrightarrow>
                  length (links ''Who'' a b semantic) = 1) \<and>
           (\<forall>a b. a \<in> object_strings n d \<and> b \<in> object_strings n d \<and>
                  a \<noteq> b \<and> are_synonyms (synsets lib) (lemma_names lib) a b \<longrightarrow>
                  length (links ''What'' a b semantic) = 1) \<and>
           (\<forall>r \<in> set semantic.
              Node_1 r \<noteq> Node_2 r \<and>
              are_synonyms (synsets lib) (lemma_names lib) (Node_1 r) (Node_2 r) \<and>
              (WDW r = ''Who'' \<and> WDW2 r = ''Who'' \<and>
               Node_1 r \<in> subject_strings n d \<and> Node_2 r \<in> subject_strings n d \<or>
               WDW r = ''What'' \<and> WDW2 r = ''What'' \<and>
               Node_1 r \<in> object_strings n d \<and> Node_2 r \<in> object_strings n d))"
proof -
  obtain svo_triples where triples: "svo_triples_of res n d = Some svo_triples"
    and t: "t = build_table lib svo_triples"
    using assms(2) by (auto simp: extract_svos_Some)
  let ?subject_nodes = "list_set lib (all_subjects svo_triples)"
  let ?object_nodes = "list_set lib (all_objects svo_triples)"
  let ?syntactic = "concat (map (svo_rows (str_svo lib)) svo_triples)"
  let ?semantic = "synonym_rows lib ''Who'' ?subject_nodes @ synonym_rows lib ''What'' ?object_nodes"
  have ds: "distinct ?subject_nodes" "set ?subject_nodes = subject_strings n d"
    and do: "distinct ?object_nodes" "set ?object_nodes = object_strings n d"
    using assms(1) all_subjects_eq [OF triples] all_objects_eq [OF triples]
    unfolding list_set_ok_def by auto
  have table: "df_rows t = ?syntactic @ ?semantic"
    by (simp add: t build_table_def)
  have syn: "\<forall>r \<in> set ?syntactic. Semantic_Syntactic r = 0"
    using svo_rows_roles by auto
  have sem: "\<forall>r \<in> set ?semantic. Semantic_Syntactic r = 1 \<and> Hypergraph r = ''N/A''"
    using synonym_rows_roles by auto
  have who: "length (links ''Who'' a b ?semantic) = 1"
    if "a \<in> subject_strings n d \<and> b \<in> subject_strings n d \<and>
        a \<noteq> b \<and> are_synonyms (synsets lib) (lemma_names lib) a b" for a b
    using that links_synonym_rows [of ?subject_nodes a b lib "''Who''"] ds
    by (simp add: links_append links_other_role)
  have what: "length (links ''What'' a b ?semantic) = 1"
    if "a \<in> object_strings n d \<and> b \<in> object_strings n d \<and>
        a \<noteq> b \<and> are_synonyms (synsets lib) (lemma_names lib) a b" for a b
    using that links_synonym_rows [of ?object_nodes a b lib "''What''"] do
    by (simp add: links_append links_other_role)
  have only: "Node_1 r \<noteq> Node_2 r \<and>
              are_synonyms (synsets lib) (lemma_names lib) (Node_1 r) (Node_2 r) \<and>
              (WDW r = ''Who'' \<and> WDW2 r = ''Who'' \<and>
               Node_1 r \<in> subject_strings n d \<and> Node_2 r \<in> subject_strings n d \<or>
               WDW r = ''What'' \<and> WDW2 r = ''What'' \<and>
               Node_1 r \<in> object_strings n d \<and> Node_2 r \<in> object_strings n d)"
    if "r \<in> set ?semantic" for r
    using that synonym_rows_mem [OF ds(1), of r lib "''Who''"]
      synonym_rows_mem [OF do(1), of r lib "''What''"] ds(2) do(2)
    by auto
  show ?thesis
    using table syn sem who what only by blast
qed

subsection \<open>Surface forms and lemmas\<close>

lemma doc_okD:
  "doc_ok d \<Longrightarrow> t < length d \<Longrightarrow> head_of d t < length d"
  "doc_ok d \<Longrightarrow> t < length d \<Longrightarrow> c \<in> set (conjuncts_of d t) \<Longrightarrow> c < length d"
  by (auto simp: doc_ok_def list_all_iff)

lemma join_append:
  "xs \<noteq> [] \<Longrightarrow> ys \<noteq> [] \<Longrightarrow> join (xs @ ys) = join xs @ '' '' @ join ys"
  by (induction xs rule: join.induct) (auto simp: neq_Nil_conv)

lemma phrase_over_word: "w \<in> W \<Longrightarrow> phrase_over W w"
  unfolding phrase_over_def by (rule exI [of _ "[w]"]) simp

lemma phrase_over_mono: "phrase_over W s \<Longrightarrow> W \<subseteq> W' \<Longrightarrow> phrase_over W' s"
  unfolding phrase_over_def by blast

lemma phrase_over_sp:
  assumes "phrase_over W a" "phrase_over W b"
  shows "phrase_over W (a @ '' '' @ b)"
proof -
  from assms obtain xs ys where
    "xs \<noteq> []" "set xs \<subseteq> W" "a = join xs" "ys \<noteq> []" "set ys \<subseteq> W" "b = join ys"
    unfolding phrase_over_def by blast
  then have "xs @ ys \<noteq> [] \<and> set (xs @ ys) \<subseteq> W \<and> a @ '' '' @ b = join (xs @ ys)"
    by (simp add: join_append)
  then show ?thesis
    unfolding phrase_over_def by blast
qed

lemma phrase_over_join:
  "xs \<noteq> [] \<Longrightarrow> \<forall>x \<in> set xs. phrase_over W x \<Longrightarrow> phrase_over W (join xs)"
proof (induction xs rule: join.induct)
  case (3 x y ys)
  then have "phrase_over W x" and "phrase_over W (join (y # ys))"
    by simp_all
  then show ?case
    using phrase_over_sp by simp
qed simp_all

lemma word_in_words: "t < length d \<Longrightarrow> word d lemmatize t \<in> word_forms d lemmatize"
  by (auto simp: word_def word_forms_def lemma_forms_def surface_forms_def)

lemma modifiers_in_range:
  assumes "doc_ok d" "t < length d" "m \<in> set (modifiers d t)"
  shows "m < length d"
proof -
  have conj: "c < length d" if "child \<in> set (children d t)" "c \<in> set (get_conj_ADJ d child)"
    for child c
  proof -
    have "child < length d"
      using that(1) by (rule children_in_range)
    moreover have "c \<in> set (conjuncts_of d child)"
      using that(2) by (simp add: get_conj_ADJ_def)
    ultimately show ?thesis
      using doc_okD(2) [OF assms(1)] by blast
  qed
  from assms(3) show ?thesis
    unfolding modifiers_def
    by (auto split: if_splits dest: children_in_range conj)
qed


lemma text_in_surface_forms: "t < length d \<Longrightarrow> text_of d t \<in> surface_forms d"
  by (auto simp: surface_forms_def)

lemma lemma_in_lemma_forms: "t < length d \<Longrightarrow> lemma_of d t \<in> lemma_forms d"
  by (auto simp: lemma_forms_def)

lemma acl_parts_assembled:
  assumes rec: "\<And>c p. c < length d \<Longrightarrow> rec c = Some p \<Longrightarrow> assembled_from d lemmatize p"
    and "acl_parts rec d lemmatize child = Some (ws, preps)"
  shows "(\<forall>w \<in> set ws. phrase_over (word_forms d lemmatize) w) \<and>
         (\<forall>s \<in> set preps. phrase_over (surface_forms d \<union> word_forms d lemmatize) s)"
proof -
  from assms(2) obtain subs where
      subs: "those (map rec [t \<leftarrow> children d child. dep_of d t = ''nsubj'']) = Some subs"
    and ws: "ws = map (word d lemmatize) [t \<leftarrow> children d child. dep_of d t = ''mark''] @ map fst subs"
    and preps: "preps = concat (map snd subs)"
    by (auto simp: acl_parts_def split: bind_splits)
  have sub_ok: "assembled_from d lemmatize p" if "p \<in> set subs" for p
  proof -
    from those_map_Some_set [OF subs that] obtain c where
      "c \<in> set (children d child)" "rec c = Some p"
      by auto
    then show ?thesis
      using rec children_in_range by blast
  qed
  have "phrase_over (word_forms d lemmatize) w" if "w \<in> set ws" for w
    using that unfolding ws
    by (auto dest!: sub_ok children_in_range
        simp: assembled_from_def intro: phrase_over_word word_in_words)
  moreover have "phrase_over (surface_forms d \<union> word_forms d lemmatize) s" if "s \<in> set preps" for s
    using that unfolding preps by (auto dest!: sub_ok simp: assembled_from_def)
  ultimately show ?thesis
    by blast
qed

lemma prep_phrase_assembled:
  assumes rec: "\<And>c p. c < length d \<Longrightarrow> rec c = Some p \<Longrightarrow> assembled_from d lemmatize p"
    and "doc_ok d" "p < length d"
    and "prep_phrase rec d p = Some s"
  shows "phrase_over (surface_forms d \<union> word_forms d lemmatize) s"
proof -
  let ?U = "surface_forms d \<union> word_forms d lemmatize"
  from assms(4) obtain items where
      items: "those (map rec (concat (map (\<lambda>pobj. pobj # conjuncts_of d pobj)
                [child \<leftarrow> children d p. dep_of d child = ''pobj'']))) = Some items"
    and s: "s = join (text_of d p #
                concat (map (\<lambda>(pobj_main, pobj_preps). pobj_main # pobj_preps) items))"
    by (auto simp: prep_phrase_def split: bind_splits)
  have item_ok: "assembled_from d lemmatize item" if "item \<in> set items" for item
  proof -
    from those_map_Some_set [OF items that] obtain c pobj where
      "pobj \<in> set (children d p)" "c = pobj \<or> c \<in> set (conjuncts_of d pobj)" "rec c = Some item"
      by auto
    moreover from this have "c < length d"
      using children_in_range doc_okD(2) [OF assms(2)] by blast
    ultimately show ?thesis
      using rec by blast
  qed
  have "phrase_over ?U x"
    if "x \<in> set (concat (map (\<lambda>(pobj_main, pobj_preps). pobj_main # pobj_preps) items))" for x
  proof -
    from that obtain item where "item \<in> set items" "x = fst item \<or> x \<in> set (snd item)"
      by (auto simp: split_beta)
    then show ?thesis
      using item_ok [of item] phrase_over_mono [of "word_forms d lemmatize" x ?U]
      by (auto simp: assembled_from_def)
  qed
  moreover have "phrase_over ?U (text_of d p)"
    using text_in_surface_forms [OF assms(3)] by (auto intro: phrase_over_word)
  ultimately show ?thesis
    unfolding s by (intro phrase_over_join) auto
qed

lemma compound_parts_step_assembled:
  assumes rec: "\<And>c p. c < length d \<Longrightarrow> rec c = Some p \<Longrightarrow> assembled_from d lemmatize p"
    and "doc_ok d" "token < length d"
    and "compound_parts_step rec d token lemmatize = Some p"
  shows "assembled_from d lemmatize p"
proof -
  let ?W = "word_forms d lemmatize"
  let ?U = "surface_forms d \<union> word_forms d lemmatize"
  from assms(4) obtain acls preps where
      acls: "those (map (acl_parts rec d lemmatize)
                 [child \<leftarrow> children d token. dep_of d child \<in> {''acl'', ''relcl''}]) = Some acls"
    and preps: "those (map (prep_phrase rec d)
                 (concat (map (\<lambda>prep. prep # conjuncts_of d prep)
                    [child \<leftarrow> children d token. dep_of d child = ''prep'']))) = Some preps"
    and p: "p = (join (map (word d lemmatize) (dets d token) @
                   concat (map fst acls) @
                   map (word d lemmatize) (modifiers d token) @
                   [word d lemmatize token]),
             concat (map snd acls) @ preps)"
    by (auto simp: compound_parts_step_def split: bind_splits)
  have acl_ok: "(\<forall>w \<in> set (fst a). phrase_over ?W w) \<and> (\<forall>s \<in> set (snd a). phrase_over ?U s)"
    if "a \<in> set acls" for a
  proof -
    from those_map_Some_set [OF acls that] obtain child where
      "acl_parts rec d lemmatize child = Some (fst a, snd a)"
      by auto
    then show ?thesis
      by (rule acl_parts_assembled [rotated]) (rule rec, assumption+)
  qed
  have prep_ok: "phrase_over ?U s" if "s \<in> set preps" for s
  proof -
    from those_map_Some_set [OF preps that] obtain q prep where
      "prep \<in> set (children d token)" "q = prep \<or> q \<in> set (conjuncts_of d prep)"
      "prep_phrase rec d q = Some s"
      by auto
    moreover from this have "q < length d"
      using children_in_range doc_okD(2) [OF assms(2)] by blast
    ultimately have "q < length d" "prep_phrase rec d q = Some s"
      by simp_all
    then show ?thesis
      by (rule prep_phrase_assembled [rotated 2]) (rule rec, assumption+, rule assms(2))
  qed
  have "phrase_over ?W x"
    if "x \<in> set (map (word d lemmatize) (dets d token) @ concat (map fst acls) @
                  map (word d lemmatize) (modifiers d token) @ [word d lemmatize token])" for x
  proof -
    from that consider
        c where "c \<in> set (dets d token)" "x = word d lemmatize c"
      | a where "a \<in> set acls" "x \<in> set (fst a)"
      | m where "m \<in> set (modifiers d token)" "x = word d lemmatize m"
      | "x = word d lemmatize token"
      by auto
    then show ?thesis
    proof cases
      case 1
      then have "c < length d"
        by (auto simp: dets_def dest: children_in_range)
      then show ?thesis
        using 1 by (auto intro: phrase_over_word word_in_words)
    next
      case 2
      then show ?thesis using acl_ok by blast
    next
      case 3
      then have "m < length d"
        using modifiers_in_range [OF assms(2,3)] by blast
      then show ?thesis
        using 3 by (auto intro: phrase_over_word word_in_words)
    next
      case 4
      then show ?thesis
        using assms(3) by (auto intro: phrase_over_word word_in_words)
    qed
  qed
  then have "phrase_over ?W (fst p)"
    unfolding p fst_conv by (intro phrase_over_join) auto
  moreover have "\<forall>s \<in> set (snd p). phrase_over ?U s"
    unfolding p using acl_ok prep_ok by auto
  ultimately show ?thesis
    by (simp add: assembled_from_def)
qed

lemma get_compound_parts_assembled:
  "doc_ok d \<Longrightarrow> token < length d \<Longrightarrow> get_compound_parts n d token lemmatize = Some p \<Longrightarrow>
   assembled_from d lemmatize p"
proof (induction n arbitrary: token p)
  case 0
  then show ?case by simp
next
  case (Suc n)
  show ?case
  proof (rule compound_parts_step_assembled [OF _ Suc.prems(1,2)])
    show "compound_parts_step (\<lambda>t. get_compound_parts n d t lemmatize) d token lemmatize = Some p"
      using Suc.prems(3) by simp
  next
    fix c q
    assume "c < length d" "get_compound_parts n d c lemmatize = Some q"
    then show "assembled_from d lemmatize q"
      using Suc.IH Suc.prems(1) by blast
  qed
qed


lemma extend_all_Some_set:
  "extend_all f xs = Some r \<Longrightarrow> y \<in> set r \<Longrightarrow> \<exists>x \<in> set xs. \<exists>ys. f x = Some ys \<and> y \<in> set ys"
proof -
  assume "extend_all f xs = Some r" and y: "y \<in> set r"
  then obtain z where z: "those (map f xs) = Some z" and "r = concat z"
    by (auto simp: extend_all_def)
  with y obtain ys where "ys \<in> set z" "y \<in> set ys"
    by auto
  with those_map_Some_set [OF z] show ?thesis
    by blast
qed

lemma extract_subjects_assembled:
  assumes "doc_ok d" "token < length d"
    and "extract_subjects n d token = Some subjects" "p \<in> set subjects"
  shows "assembled_from d False p"
proof -
  from those_map_Some_set [OF assms(3) [unfolded extract_subjects_def] assms(4)]
  obtain c where "c = token \<or> c \<in> set (conjuncts_of d token)"
    "get_compound_parts n d c False = Some p"
    by (auto split: if_splits)
  moreover from this have "c < length d"
    using assms(2) doc_okD(2) [OF assms(1)] by blast
  ultimately show ?thesis
    using get_compound_parts_assembled [OF assms(1)] by blast
qed

lemma extract_objects_assembled:
  assumes "doc_ok d" "token < length d"
    and "extract_objects n d token = Some objects" "q \<in> set objects"
  shows "\<exists>c main. c < length d \<and> assembled_from d True (main, snd q) \<and>
           fst q = (if dep_of d c = ''pobj'' then text_of d (head_of d c) @ '' '' @ main else main)"
proof -
  from those_map_Some_set [OF assms(3) [unfolded extract_objects_def] assms(4)]
  obtain c where c: "c = token \<or> c \<in> set (conjuncts_of d token)"
    and q: "object_phrase n d c = Some q"
    by (auto split: if_splits)
  from c have "c < length d"
    using assms(2) doc_okD(2) [OF assms(1)] by blast
  moreover from q obtain main where "get_compound_parts n d c True = Some (main, snd q)"
    "fst q = (if dep_of d c = ''pobj'' then text_of d (head_of d c) @ '' '' @ main else main)"
    by (auto simp: object_phrase_def)
  ultimately show ?thesis
    using get_compound_parts_assembled [OF assms(1)] by blast
qed

lemma get_verb_phrase_lemmas:
  assumes "doc_ok d" "verb < length d"
    and "get_verb_phrase res n d verb = Some verbs" "v \<in> set verbs"
  shows "phrase_over (lemma_forms d) v"
proof (cases n)
  case 0
  then show ?thesis using assms(3) by simp
next
  case (Suc k)
  let ?compound = "\<lambda>child. get_compound_parts k d child True"
  from assms(3) obtain advs_before advs_after xcomps where
      before: "those (map ?compound [child \<leftarrow> lefts d verb. is_adverbial res d child]) = Some advs_before"
    and after: "those (map ?compound [child \<leftarrow> rights d verb. is_adverbial res d child]) = Some advs_after"
    and xcomps: "extend_all (xcomp_parts (get_verb_phrase res k d) d)
                   [child \<leftarrow> children d verb. dep_of d child \<in> {''xcomp''}] = Some xcomps"
    and verbs: "verbs = [join (map (lemma_of d) [child \<leftarrow> lefts d verb. is_aux res d child] @
                   map fst advs_before @ [lemma_of d verb] @ map fst advs_after @
                   map (lemma_of d) [child \<leftarrow> rights d verb. is_aux res d child] @ xcomps)]"
    unfolding Suc by (auto simp: verb_phrase_step_def split: bind_splits)
  have adv: "phrase_over (lemma_forms d) (fst a)"
    if h: "those (map ?compound cs) = Some advs" "set cs \<subseteq> set (children d verb)" "a \<in> set advs"
    for cs advs a
  proof -
    from those_map_Some_set [OF h(1,3)] obtain c where
      "c \<in> set (children d verb)" "get_compound_parts k d c True = Some a"
      using h(2) by auto
    then have "assembled_from d True a"
      using get_compound_parts_assembled [OF assms(1)] children_in_range by blast
    then show ?thesis
      by (simp add: assembled_from_def word_forms_def)
  qed
  have xc: "phrase_over (lemma_forms d) x" if "x \<in> set xcomps" for x
  proof -
    from extend_all_Some_set [OF xcomps that] obtain child ys where
      child: "child \<in> set (children d verb)"
      and ys: "xcomp_parts (get_verb_phrase res k d) d child = Some ys" "x \<in> set ys"
      by auto
    from ys(1) obtain vp where "get_verb_phrase res k d child = Some vp"
      by (auto simp: xcomp_parts_def split: bind_splits)
    then have "ys = [lemma_of d child]"
      using xcomp_parts_lemma_only ys(1) by fastforce
    then show ?thesis
      using ys(2) child by (auto intro: phrase_over_word lemma_in_lemma_forms dest: children_in_range)
  qed
  have "phrase_over (lemma_forms d) x"
    if "x \<in> set (map (lemma_of d) [child \<leftarrow> lefts d verb. is_aux res d child] @
                   map fst advs_before @ [lemma_of d verb] @ map fst advs_after @
                   map (lemma_of d) [child \<leftarrow> rights d verb. is_aux res d child] @ xcomps)" for x
  proof -
    from that consider
        c where "c \<in> set (children d verb)" "x = lemma_of d c"
      | a where "a \<in> set advs_before" "x = fst a"
      | a where "a \<in> set advs_after" "x = fst a"
      | "x = lemma_of d verb"
      | "x \<in> set xcomps"
      by (auto simp: lefts_def rights_def)
    then show ?thesis
    proof cases
      case 1
      then show ?thesis
        by (auto intro: phrase_over_word lemma_in_lemma_forms dest: children_in_range)
    next
      case 2
      then show ?thesis
        using adv [OF before] by (auto simp: lefts_def)
    next
      case 3
      then show ?thesis
        using adv [OF after] by (auto simp: rights_def)
    next
      case 4
      then show ?thesis
        using assms(2) by (auto intro: phrase_over_word lemma_in_lemma_forms)
    next
      case 5
      then show ?thesis by (rule xc)
    qed
  qed
  then have "phrase_over (lemma_forms d)
     (join (map (lemma_of d) [child \<leftarrow> lefts d verb. is_aux res d child] @
                   map fst advs_before @ [lemma_of d verb] @ map fst advs_after @
                   map (lemma_of d) [child \<leftarrow> rights d verb. is_aux res d child] @ xcomps))"
    by (intro phrase_over_join) auto
  then show ?thesis
    using assms(4) verbs by simp
qed


lemma those_map_mono:
  "(\<And>x y. x \<in> set xs \<Longrightarrow> f x = Some y \<Longrightarrow> g x = Some y) \<Longrightarrow>
   those (map f xs) = Some ys \<Longrightarrow> those (map g xs) = Some ys"
proof (induction xs arbitrary: ys)
  case Nil
  then show ?case by simp
next
  case (Cons x xs)
  from Cons.prems(2) obtain y zs where y: "f x = Some y" "those (map f xs) = Some zs" "ys = y # zs"
    by (auto split: option.splits)
  have "g x = Some y"
    using Cons.prems(1) y(1) by simp
  moreover have "those (map g xs) = Some zs"
    using Cons.IH [OF _ y(2)] Cons.prems(1) by simp
  ultimately show ?case
    using y(3) by simp
qed

lemma acl_parts_mono:
  assumes "\<And>x y. rec x = Some y \<Longrightarrow> rec' x = Some y"
    and "acl_parts rec d lemmatize child = Some r"
  shows "acl_parts rec' d lemmatize child = Some r"
proof -
  from assms(2) obtain subs where
    "those (map rec [t \<leftarrow> children d child. dep_of d t = ''nsubj'']) = Some subs"
    "r = (map (word d lemmatize) [t \<leftarrow> children d child. dep_of d t = ''mark''] @ map fst subs,
          concat (map snd subs))"
    by (auto simp: acl_parts_def split: bind_splits)
  moreover from this(1) have
    "those (map rec' [t \<leftarrow> children d child. dep_of d t = ''nsubj'']) = Some subs"
    by (rule those_map_mono [rotated]) (rule assms(1))
  ultimately show ?thesis
    by (simp add: acl_parts_def)
qed

lemma prep_phrase_mono:
  assumes "\<And>x y. rec x = Some y \<Longrightarrow> rec' x = Some y"
    and "prep_phrase rec d p = Some r"
  shows "prep_phrase rec' d p = Some r"
proof -
  let ?items = "concat (map (\<lambda>pobj. pobj # conjuncts_of d pobj)
                  [child \<leftarrow> children d p. dep_of d child = ''pobj''])"
  from assms(2) obtain items where
    "those (map rec ?items) = Some items"
    "r = join (text_of d p # concat (map (\<lambda>(pobj_main, pobj_preps). pobj_main # pobj_preps) items))"
    by (auto simp: prep_phrase_def split: bind_splits)
  moreover from this(1) have "those (map rec' ?items) = Some items"
    by (rule those_map_mono [rotated]) (rule assms(1))
  ultimately show ?thesis
    by (simp add: prep_phrase_def)
qed

lemma compound_parts_step_mono:
  assumes "\<And>x y. rec x = Some y \<Longrightarrow> rec' x = Some y"
    and "compound_parts_step rec d token lemmatize = Some r"
  shows "compound_parts_step rec' d token lemmatize = Some r"
proof -
  let ?acl = "[child \<leftarrow> children d token. dep_of d child \<in> {''acl'', ''relcl''}]"
  let ?prep = "concat (map (\<lambda>prep. prep # conjuncts_of d prep)
                    [child \<leftarrow> children d token. dep_of d child = ''prep''])"
  from assms(2) obtain acls preps where
    a: "those (map (acl_parts rec d lemmatize) ?acl) = Some acls"
    and p: "those (map (prep_phrase rec d) ?prep) = Some preps"
    and r: "r = (join (map (word d lemmatize) (dets d token) @ concat (map fst acls) @
                   map (word d lemmatize) (modifiers d token) @ [word d lemmatize token]),
             concat (map snd acls) @ preps)"
    by (auto simp: compound_parts_step_def split: bind_splits)
  have "those (map (acl_parts rec' d lemmatize) ?acl) = Some acls"
    using a by (rule those_map_mono [rotated]) (rule acl_parts_mono [OF assms(1)])
  moreover have "those (map (prep_phrase rec' d) ?prep) = Some preps"
    using p by (rule those_map_mono [rotated]) (rule prep_phrase_mono [OF assms(1)])
  ultimately show ?thesis
    by (simp add: compound_parts_step_def r)
qed

lemma get_compound_parts_Suc:
  "get_compound_parts n d token lemmatize = Some r \<Longrightarrow>
   get_compound_parts (Suc n) d token lemmatize = Some r"
proof (induction n arbitrary: token r)
  case 0
  then show ?case by simp
next
  case (Suc n)
  have "compound_parts_step (\<lambda>t. get_compound_parts n d t lemmatize) d token lemmatize = Some r"
    using Suc.prems by simp
  then have "compound_parts_step (\<lambda>t. get_compound_parts (Suc n) d t lemmatize) d token lemmatize = Some r"
    by (rule compound_parts_step_mono [rotated]) (rule Suc.IH)
  then show ?case by simp
qed

lemma get_compound_parts_mono:
  "get_compound_parts m d token lemmatize = Some r \<Longrightarrow> m \<le> n \<Longrightarrow>
   get_compound_parts n d token lemmatize = Some r"
proof (induction n)
  case 0
  then show ?case by simp
next
  case (Suc n)
  show ?case
  proof (cases "m = Suc n")
    case True
    then show ?thesis using Suc.prems(1) by simp
  next
    case False
    then have "m \<le> n" using Suc.prems(2) by simp
    then have "get_compound_parts n d token lemmatize = Some r"
      using Suc.IH Suc.prems(1) by blast
    then show ?thesis by (rule get_compound_parts_Suc)
  qed
qed

lemma first_nonempty_Some_set:
  "first_nonempty f xs = Some r \<Longrightarrow> y \<in> set r \<Longrightarrow> \<exists>x \<in> set xs. \<exists>ys. f x = Some ys \<and> y \<in> set ys"
proof (induction xs)
  case Nil
  then show ?case by simp
next
  case (Cons x xs)
  show ?case
  proof (cases "f x")
    case None
    then show ?thesis using Cons.prems by simp
  next
    case (Some ys)
    show ?thesis
    proof (cases ys)
      case Nil
      then show ?thesis using Cons Some by auto
    next
      case (Cons z zs)
      then show ?thesis using Cons.prems Some by auto
    qed
  qed
qed

lemma extract_subjects_shape:
  assumes "doc_ok d" "token < length d" "extract_subjects n d token = Some r" "p \<in> set r"
  shows "\<exists>c<length d. get_compound_parts n d c False = Some p"
proof -
  from those_map_Some_set [OF assms(3) [unfolded extract_subjects_def] assms(4)]
  obtain c where "c = token \<or> c \<in> set (conjuncts_of d token)"
    "get_compound_parts n d c False = Some p"
    by (auto split: if_splits)
  moreover from this have "c < length d"
    using assms(2) doc_okD(2) [OF assms(1)] by blast
  ultimately show ?thesis by blast
qed

lemma extract_objects_shape:
  assumes "doc_ok d" "token < length d" "extract_objects n d token = Some r" "q \<in> set r"
  shows "\<exists>c<length d. \<exists>main. get_compound_parts n d c True = Some (main, snd q) \<and>
           fst q = (if dep_of d c = ''pobj'' then text_of d (head_of d c) @ '' '' @ main else main)"
proof -
  from those_map_Some_set [OF assms(3) [unfolded extract_objects_def] assms(4)]
  obtain c where c: "c = token \<or> c \<in> set (conjuncts_of d token)"
    and q: "object_phrase n d c = Some q"
    by (auto split: if_splits)
  from c have "c < length d"
    using assms(2) doc_okD(2) [OF assms(1)] by blast
  moreover from q obtain main where "get_compound_parts n d c True = Some (main, snd q)"
    "fst q = (if dep_of d c = ''pobj'' then text_of d (head_of d c) @ '' '' @ main else main)"
    by (auto simp: object_phrase_def)
  ultimately show ?thesis by blast
qed

lemma verb_subjects_step_cases:
  assumes "verb_subjects_step rec n d verb = Some subjects" "p \<in> set subjects"
  shows "(p = (''you'', []) \<and> head_of d verb = verb \<and> is_imperative d verb) \<or>
         (\<exists>c \<in> set (children_with d verb {''csubj''}). p = (extract_clause d c, [])) \<or>
         (\<exists>s r. s < length d \<and> extract_subjects n d s = Some r \<and> p \<in> set r) \<or>
         get_compound_parts n d (head_of d verb) False = Some p \<or>
         (\<exists>r. rec (head_of d verb) = Some r \<and> p \<in> set r)"
proof (cases "dep_of d verb \<in> {''acl'', ''relcl''}")
  case True
  show ?thesis
  proof (cases "children_with d verb {''nsubj''} = []")
    case True
    then show ?thesis
      using assms \<open>dep_of d verb \<in> {''acl'', ''relcl''}\<close>
      by (auto simp: verb_subjects_step_def)
  next
    case False
    then have "extend_all (extract_subjects n d) (children_with d verb {''nsubj''}) = Some subjects"
      using assms(1) True by (simp add: verb_subjects_step_def)
    from extend_all_Some_set [OF this assms(2)] show ?thesis
      by (blast dest: children_with_in_range)
  qed
next
  case False
  let ?csubj = "map (\<lambda>csubj. (extract_clause d csubj, [])) (children_with d verb {''csubj''})"
  from assms(1) obtain direct agents s4 s5 nouns where
      direct: "extend_all (extract_subjects n d) (children_with d verb {''nsubj''}) = Some direct"
    and agents: "(if list_ex (\<lambda>child. dep_of d child = ''nsubjpass'') (children d verb)
                  then extend_all (extract_subjects n d) (agent_pobjs d verb)
                  else Some []) = Some agents"
    and s4: "(if direct @ ?csubj @ agents = []
              then first_nonempty (extract_subjects n d) (ancestor_subjects d verb)
              else Some (direct @ ?csubj @ agents)) = Some s4"
    and s5: "(if s4 = [] \<and> dep_of d verb = ''conj'' \<and> pos_of d (head_of d verb) = ''VERB''
              then rec (head_of d verb) else Some s4) = Some s5"
    and nouns: "extend_all (extract_subjects n d) (conj_nouns d verb) = Some nouns"
    and subjects: "subjects = (if s5 @ nouns = [] \<and> head_of d verb = verb \<and> is_imperative d verb
                               then [(''you'', [])] else s5 @ nouns)"
    unfolding verb_subjects_step_def if_not_P [OF False] Let_def
    by (auto split: bind_splits)
  have es: "\<exists>s r. s < length d \<and> extract_subjects n d s = Some r \<and> p \<in> set r"
    if "extend_all (extract_subjects n d) cs = Some r" "p \<in> set r" "set cs \<subseteq> {..<length d}"
    for cs r
    using extend_all_Some_set [OF that(1,2)] that(3) by blast
  have in_direct: "p \<in> set direct \<Longrightarrow> ?thesis"
    using es [OF direct] by (auto dest: children_with_in_range)
  have in_agents: "p \<in> set agents \<Longrightarrow> ?thesis"
  proof -
    assume a: "p \<in> set agents"
    then have "extend_all (extract_subjects n d) (agent_pobjs d verb) = Some agents"
      using agents by (auto split: if_splits)
    from es [OF this a] show ?thesis
      by (auto simp: agent_pobjs_def dest: children_with_in_range)
  qed
  have in_nouns: "p \<in> set nouns \<Longrightarrow> ?thesis"
    using es [OF nouns] by (auto simp: conj_nouns_def dest: children_in_range)
  have in_s3: "p \<in> set (direct @ ?csubj @ agents) \<Longrightarrow> ?thesis"
    using in_direct in_agents by auto
  have in_s4: "p \<in> set s4 \<Longrightarrow> ?thesis"
  proof -
    assume a: "p \<in> set s4"
    show ?thesis
    proof (cases "direct @ ?csubj @ agents = []")
      case True
      then have "first_nonempty (extract_subjects n d) (ancestor_subjects d verb) = Some s4"
        using s4 by simp
      from first_nonempty_Some_set [OF this a] show ?thesis
        by (auto simp: ancestor_subjects_def dest: children_with_in_range)
    next
      case False
      have "s4 = direct @ ?csubj @ agents"
        using s4 unfolding if_not_P [OF False] by simp
      then have "p \<in> set (direct @ ?csubj @ agents)" using a by simp
      then show ?thesis by (rule in_s3)
    qed
  qed
  have in_s5: "p \<in> set s5 \<Longrightarrow> ?thesis"
    using s5 in_s4 by (auto split: if_splits)
  show ?thesis
    using assms(2) in_s5 in_nouns unfolding subjects by (auto split: if_splits)
qed

lemma extract_subjects_mono:
  assumes "extract_subjects m d token = Some r" "m \<le> n"
  shows "extract_subjects n d token = Some r"
  using assms(1) unfolding extract_subjects_def
  by (rule those_map_mono [rotated]) (rule get_compound_parts_mono [OF _ assms(2)])

lemma extract_clause_lemmas:
  assumes "c < length d"
  shows "phrase_over (lemma_forms d) (extract_clause d c)"
proof -
  let ?ws = "map (lemma_of d) (sort (subtree d c))"
  have "c \<in> set (subtree d c)"
    using assms by (simp add: subtree_def)
  then have "set (sort (subtree d c)) \<noteq> {}"
    by auto
  then have "?ws \<noteq> []"
    by (simp del: set_sort)
  moreover have "set ?ws \<subseteq> lemma_forms d"
    by (auto simp: subtree_def intro: lemma_in_lemma_forms)
  ultimately show ?thesis
    unfolding phrase_over_def extract_clause_def by blast
qed

lemma get_verb_subjects_shape:
  assumes ok: "doc_ok d"
  shows "verb < length d \<Longrightarrow> get_verb_subjects m d verb = Some subjects \<Longrightarrow> p \<in> set subjects \<Longrightarrow>
         m \<le> Suc n \<Longrightarrow>
         (p = (''you'', []) \<and> (\<exists>v<length d. head_of d v = v \<and> is_imperative d v)) \<or>
         (\<exists>c<length d. dep_of d c = ''csubj'' \<and> p = (extract_clause d c, [])) \<or>
         (\<exists>c<length d. get_compound_parts n d c False = Some p)"
proof (induction m arbitrary: verb subjects)
  case 0
  then show ?case by simp
next
  case (Suc m)
  have step: "verb_subjects_step (get_verb_subjects m d) m d verb = Some subjects"
    using Suc.prems(2) by simp
  have le: "m \<le> n"
    using Suc.prems(4) by simp
  from verb_subjects_step_cases [OF step Suc.prems(3)]
  consider
      (you) "p = (''you'', [])" "head_of d verb = verb" "is_imperative d verb"
    | (csubj) c where "c \<in> set (children_with d verb {''csubj''})" "p = (extract_clause d c, [])"
    | (phrase) s r where "s < length d" "extract_subjects m d s = Some r" "p \<in> set r"
    | (head) "get_compound_parts m d (head_of d verb) False = Some p"
    | (conj) r where "get_verb_subjects m d (head_of d verb) = Some r" "p \<in> set r"
    by blast
  then show ?case
  proof cases
    case you
    then show ?thesis using Suc.prems(1) by blast
  next
    case csubj
    then have "c < length d" "dep_of d c = ''csubj''"
      by (auto simp: children_with_def dest: children_in_range)
    then show ?thesis using csubj(2) by blast
  next
    case phrase
    from extract_subjects_shape [OF ok phrase] obtain c where
      "c < length d" "get_compound_parts m d c False = Some p"
      by blast
    then show ?thesis
      using get_compound_parts_mono [OF _ le] by blast
  next
    case head
    then have "get_compound_parts n d (head_of d verb) False = Some p"
      using le by (rule get_compound_parts_mono)
    then show ?thesis
      using doc_okD(1) [OF ok Suc.prems(1)] by blast
  next
    case conj
    show ?thesis
      using Suc.IH [OF doc_okD(1) [OF ok Suc.prems(1)] conj] Suc.prems(4) by simp
  qed
qed

lemma prep_objects_cases:
  assumes "prep_objects n d prep = Some r" "q \<in> set r"
  shows "\<exists>t r'. t < length d \<and> extract_objects n d t = Some r' \<and> q \<in> set r'"
proof -
  from assms(1) obtain preps visited where
    "extend_all (\<lambda>p. process_objects n d (children_with d p {''pobj''})) preps = Some r"
    by (auto simp: prep_objects_def split: bind_splits)
  from extend_all_Some_set [OF this assms(2)] obtain p ys where
    "process_objects n d (children_with d p {''pobj''}) = Some ys" "q \<in> set ys"
    by blast
  from extend_all_Some_set [OF this(1) [unfolded process_objects_def] this(2)]
  show ?thesis
    by (blast dest: children_with_in_range)
qed

lemma verb_objects_step_cases:
  assumes "verb_objects_step rec n d verb = Some objects" "q \<in> set objects"
  shows "(\<exists>t r. t < length d \<and> extract_objects n d t = Some r \<and> q \<in> set r) \<or>
         (\<exists>s r. s < length d \<and> dep_of d s \<in> {''nsubj'', ''nsubjpass''} \<and>
                 dep_of d (head_of d s) = ''ccomp'' \<and>
                 extract_subjects n d s = Some r \<and> q \<in> set r) \<or>
         (\<exists>c r. c \<in> set (children d verb) \<and> rec c = Some r \<and> q \<in> set r)"
proof -
  let ?thesis' = "(\<exists>t r. t < length d \<and> extract_objects n d t = Some r \<and> q \<in> set r) \<or>
         (\<exists>s r. s < length d \<and> dep_of d s \<in> {''nsubj'', ''nsubjpass''} \<and>
                 dep_of d (head_of d s) = ''ccomp'' \<and>
                 extract_subjects n d s = Some r \<and> q \<in> set r) \<or>
         (\<exists>c r. c \<in> set (children d verb) \<and> rec c = Some r \<and> q \<in> set r)"
  from assms(1) obtain direct indirect prepositional passives npadvmod ccomp xcomp where
      direct: "process_objects n d (children_with d verb {''dobj'', ''attr'', ''oprd'', ''acomp''}) = Some direct"
    and indirect: "process_objects n d (children_with d verb {''iobj''}) = Some indirect"
    and prepositional: "extend_all (prep_objects n d) (children_with d verb {''prep''}) = Some prepositional"
    and passives: "(if tag_of d verb \<in> {''VBN'', ''VBD''} \<and>
                      list_ex (\<lambda>child. dep_of d child = ''nsubjpass'') (children d verb)
                    then process_objects n d (children_with d verb {''nsubjpass''})
                    else Some []) = Some passives"
    and npadvmod: "process_objects n d
                    [child \<leftarrow> children d verb.
                       dep_of d child = ''npadvmod'' \<and> pos_of d child \<in> {''PROPN'', ''PRON''}] = Some npadvmod"
    and ccomp: "extend_all
                  (\<lambda>child. extend_all (extract_subjects n d) (children_with d child {''nsubj'', ''nsubjpass''}))
                  (children_with d verb {''ccomp''}) = Some ccomp"
    and xcomp: "extend_all (xcomp_objects rec n d) (children_with d verb {''xcomp''}) = Some xcomp"
    and objects: "(if direct @ indirect @ prepositional @ passives @ npadvmod @ ccomp @ xcomp = []
       then first_nonempty rec [child \<leftarrow> children d verb. dep_of d child = ''conj'' \<and> pos_of d child = ''VERB'']
       else Some (direct @ indirect @ prepositional @ passives @ npadvmod @ ccomp @ xcomp)) = Some objects"
    unfolding verb_objects_step_def Let_def
    by (auto split: bind_splits)
  have po: ?thesis' if "process_objects n d cs = Some r" "q \<in> set r" "set cs \<subseteq> {..<length d}" for cs r
    using extend_all_Some_set [OF that(1) [unfolded process_objects_def] that(2)] that(3) by blast
  have in_direct: "q \<in> set direct \<Longrightarrow> ?thesis'"
    using po [OF direct] by (auto dest: children_with_in_range)
  have in_indirect: "q \<in> set indirect \<Longrightarrow> ?thesis'"
    using po [OF indirect] by (auto dest: children_with_in_range)
  have in_prep: "q \<in> set prepositional \<Longrightarrow> ?thesis'"
  proof -
    assume "q \<in> set prepositional"
    from extend_all_Some_set [OF prepositional this] obtain prep ys where
      "prep_objects n d prep = Some ys" "q \<in> set ys"
      by blast
    from prep_objects_cases [OF this] show ?thesis' by blast
  qed
  have in_passives: "q \<in> set passives \<Longrightarrow> ?thesis'"
  proof -
    assume a: "q \<in> set passives"
    then have "process_objects n d (children_with d verb {''nsubjpass''}) = Some passives"
      using passives by (auto split: if_splits)
    from po [OF this a] show ?thesis'
      by (auto dest: children_with_in_range)
  qed
  have in_npadvmod: "q \<in> set npadvmod \<Longrightarrow> ?thesis'"
    using po [OF npadvmod] by (auto dest: children_in_range)
  have in_ccomp: "q \<in> set ccomp \<Longrightarrow> ?thesis'"
  proof -
    assume "q \<in> set ccomp"
    from extend_all_Some_set [OF ccomp this] obtain cc ys where
      cc: "cc \<in> set (children_with d verb {''ccomp''})"
      and ys: "extend_all (extract_subjects n d) (children_with d cc {''nsubj'', ''nsubjpass''}) = Some ys"
         "q \<in> set ys"
      by blast
    from extend_all_Some_set [OF ys] obtain s r where
      s: "s \<in> set (children_with d cc {''nsubj'', ''nsubjpass''})"
      and r: "extract_subjects n d s = Some r" "q \<in> set r"
      by blast
    from s have "s < length d" "dep_of d s \<in> {''nsubj'', ''nsubjpass''}" "head_of d s = cc"
      by (auto simp: children_with_def children_def)
    moreover from cc have "dep_of d cc = ''ccomp''"
      by (auto simp: children_with_def)
    ultimately show ?thesis'
      using r by blast
  qed
  have in_xcomp: "q \<in> set xcomp \<Longrightarrow> ?thesis'"
  proof -
    assume "q \<in> set xcomp"
    from extend_all_Some_set [OF xcomp this] obtain x ys where
      x: "x \<in> set (children_with d verb {''xcomp''})"
      and ys: "xcomp_objects rec n d x = Some ys" "q \<in> set ys"
      by blast
    from ys(1) obtain found where found: "rec x = Some found"
      and rest: "(if found \<noteq> [] then Some found
          else extend_all (extract_objects n d) (children_with d x {''dobj'', ''attr'', ''oprd''})) = Some ys"
      by (auto simp: xcomp_objects_def split: bind_splits)
    show ?thesis'
    proof (cases "found = []")
      case True
      then have "extend_all (extract_objects n d) (children_with d x {''dobj'', ''attr'', ''oprd''}) = Some ys"
        using rest by simp
      from extend_all_Some_set [OF this ys(2)] show ?thesis
        by (blast dest: children_with_in_range)
    next
      case False
      then have "ys = found" using rest by simp
      moreover have "x \<in> set (children d verb)"
        using x by (simp add: children_with_def)
      ultimately show ?thesis
        using found ys(2) by blast
    qed
  qed
  show ?thesis'
  proof (cases "direct @ indirect @ prepositional @ passives @ npadvmod @ ccomp @ xcomp = []")
    case True
    then have "first_nonempty rec [child \<leftarrow> children d verb. dep_of d child = ''conj'' \<and> pos_of d child = ''VERB''] = Some objects"
      using objects by simp
    from first_nonempty_Some_set [OF this assms(2)] show ?thesis
      by auto
  next
    case False
    have "objects = direct @ indirect @ prepositional @ passives @ npadvmod @ ccomp @ xcomp"
      using objects unfolding if_not_P [OF False] by simp
    then have "q \<in> set direct \<or> q \<in> set indirect \<or> q \<in> set prepositional \<or> q \<in> set passives \<or>
               q \<in> set npadvmod \<or> q \<in> set ccomp \<or> q \<in> set xcomp"
      using assms(2) by simp
    then show ?thesis
      using in_direct in_indirect in_prep in_passives in_npadvmod in_ccomp in_xcomp by blast
  qed
qed

lemma get_verb_objects_shape:
  assumes ok: "doc_ok d"
  shows "verb < length d \<Longrightarrow> get_verb_objects m d verb = Some objects \<Longrightarrow> q \<in> set objects \<Longrightarrow>
         m \<le> Suc n \<Longrightarrow>
         (\<exists>s r. s < length d \<and> dep_of d s \<in> {''nsubj'', ''nsubjpass''} \<and>
                 dep_of d (head_of d s) = ''ccomp'' \<and>
                 extract_subjects n d s = Some r \<and> q \<in> set r) \<or>
         (\<exists>c<length d. \<exists>main. get_compound_parts n d c True = Some (main, snd q) \<and>
            fst q = (if dep_of d c = ''pobj'' then text_of d (head_of d c) @ '' '' @ main else main))"
proof (induction m arbitrary: verb objects)
  case 0
  then show ?case by simp
next
  case (Suc m)
  have step: "verb_objects_step (get_verb_objects m d) m d verb = Some objects"
    using Suc.prems(2) by simp
  have le: "m \<le> n"
    using Suc.prems(4) by simp
  from verb_objects_step_cases [OF step Suc.prems(3)]
  consider
      (obj) t r where "t < length d" "extract_objects m d t = Some r" "q \<in> set r"
    | (ccomp) s r where "s < length d" "dep_of d s \<in> {''nsubj'', ''nsubjpass''}"
        "dep_of d (head_of d s) = ''ccomp''" "extract_subjects m d s = Some r" "q \<in> set r"
    | (rec) c r where "c \<in> set (children d verb)" "get_verb_objects m d c = Some r" "q \<in> set r"
    by blast
  then show ?case
  proof cases
    case obj
    from extract_objects_shape [OF ok obj] obtain c main where
      "c < length d" "get_compound_parts m d c True = Some (main, snd q)"
      "fst q = (if dep_of d c = ''pobj'' then text_of d (head_of d c) @ '' '' @ main else main)"
      by blast
    then show ?thesis
      using get_compound_parts_mono [OF _ le] by blast
  next
    case ccomp
    then show ?thesis
      using extract_subjects_mono [OF _ le] by blast
  next
    case rec
    show ?thesis
      using Suc.IH [OF children_in_range [OF rec(1)] rec(2,3)] Suc.prems(4) by simp
  qed
qed

lemma phrase_over_first:
  assumes "phrase_over W s"
  shows "\<exists>w \<in> W. s = w \<or> (\<exists>rest. s = w @ '' '' @ rest)"
proof -
  from assms obtain ws where ws: "ws \<noteq> []" "set ws \<subseteq> W" "s = join ws"
    unfolding phrase_over_def by blast
  show ?thesis
  proof (cases ws rule: join.cases)
    case 1
    then show ?thesis using ws(1) by simp
  next
    case (2 x)
    then show ?thesis using ws by auto
  next
    case (3 x y ys)
    then show ?thesis using ws by auto
  qed
qed

text \<open>
  Claim C5 says that subject phrases and object phrases alike are made of surface forms.
  It fails in three places. \<open>extract_objects\<close> calls the assembler with its default
  \<open>lemmatize = True\<close>: in \<^verbatim>\<open>The dogs of Alice chased cats in gardens\<close> the objects of
  \<^verbatim>\<open>chased\<close> are \<^verbatim>\<open>cat\<close> and \<^verbatim>\<open>in garden\<close>. A clausal subject is rendered by
  \<open>extract_clause\<close>, the lemmas of its subtree: in \<^verbatim>\<open>Eating cakes pleases Alice\<close> the
  subject of \<^verbatim>\<open>pleases\<close> is \<^verbatim>\<open>eat cake\<close>. And the subject of the imperative
  \<^verbatim>\<open>Close the door\<close> is the literal \<^verbatim>\<open>you\<close>, which is no token of the document.
\<close>

theorem resolver_phrases_not_surface_counterexample:
  "get_verb_objects 3 doc_dogs 4 = Some [(''cat'', []), (''in garden'', [])] \<and>
   extract_objects 2 doc_dogs 5 = Some [(''cat'', [])] \<and>
   text_of doc_dogs 5 = ''cats'' \<and> lemma_of doc_dogs 5 = ''cat'' \<and>
   \<not> phrase_over (surface_forms doc_dogs) ''cat'' \<and>
   get_verb_subjects 3 doc_eating 2 = Some [(''eat cake'', [])] \<and>
   extract_clause doc_eating 0 = ''eat cake'' \<and>
   \<not> phrase_over (surface_forms doc_eating) ''eat cake'' \<and>
   get_verb_subjects 3 doc_close 0 = Some [(''you'', [])] \<and>
   \<not> phrase_over (surface_forms doc_close) ''you''"
proof -
  have a: "get_verb_objects 3 doc_dogs 4 = Some [(''cat'', []), (''in garden'', [])]"
    "extract_objects 2 doc_dogs 5 = Some [(''cat'', [])]"
    "text_of doc_dogs 5 = ''cats''" "lemma_of doc_dogs 5 = ''cat''"
    "get_verb_subjects 3 doc_eating 2 = Some [(''eat cake'', [])]"
    "extract_clause doc_eating 0 = ''eat cake''"
    "get_verb_subjects 3 doc_close 0 = Some [(''you'', [])]"
    by code_simp+
  have b: "\<not> phrase_over (surface_forms doc_dogs) ''cat''"
    by (auto dest!: phrase_over_first simp: surface_forms_def doc_dogs_def mk_token_def)
  have c: "\<not> phrase_over (surface_forms doc_eating) ''eat cake''"
    by (auto dest!: phrase_over_first simp: surface_forms_def doc_eating_def mk_token_def)
  have d: "\<not> phrase_over (surface_forms doc_close) ''you''"
    by (auto dest!: phrase_over_first simp: surface_forms_def doc_close_def mk_token_def)
  from a b c d show ?thesis by blast
qed

text \<open>
  Claim C5, amended. In a document in order, every subject that the Subject Resolver
  returns for a token is the literal \<^verbatim>\<open>you\<close> (and the document has a root in imperative
  form), or the clause of a \<^verbatim>\<open>csubj\<close> token, made of lemmas, or a phrase assembled
  without lemmatizing, whose main string and prepositional strings are made of surface
  forms. Every object that the Object Resolver returns is a subject phrase of a clausal
  complement (of an \<^verbatim>\<open>nsubj\<close> or \<^verbatim>\<open>nsubjpass\<close> token whose head is labelled \<^verbatim>\<open>ccomp\<close>),
  assembled without lemmatizing and made of surface forms, or a phrase assembled with
  lemmatizing: its main string is made of lemmas, after the surface form of the governing
  preposition exactly when the token is a \<^verbatim>\<open>pobj\<close>. Verb phrases are made of lemmas.
\<close>

theorem resolver_word_forms:
  assumes "doc_ok d" "verb < length d"
  shows "(get_verb_subjects (Suc n) d verb = Some subjects \<and> p \<in> set subjects \<longrightarrow>
            (p = (''you'', []) \<and> (\<exists>v<length d. head_of d v = v \<and> is_imperative d v)) \<or>
            (\<exists>c<length d. dep_of d c = ''csubj'' \<and> p = (extract_clause d c, []) \<and>
               phrase_over (lemma_forms d) (fst p)) \<or>
            (\<exists>c<length d. get_compound_parts n d c False = Some p \<and>
               phrase_over (surface_forms d) (fst p) \<and>
               (\<forall>s \<in> set (snd p). phrase_over (surface_forms d) s))) \<and>
         (get_verb_objects (Suc n) d verb = Some objects \<and> q \<in> set objects \<longrightarrow>
            (\<exists>s r. s < length d \<and> dep_of d s \<in> {''nsubj'', ''nsubjpass''} \<and>
               dep_of d (head_of d s) = ''ccomp'' \<and>
               extract_subjects n d s = Some r \<and> q \<in> set r \<and>
               phrase_over (surface_forms d) (fst q) \<and>
               (\<forall>s \<in> set (snd q). phrase_over (surface_forms d) s)) \<or>
            (\<exists>c<length d. \<exists>main. get_compound_parts n d c True = Some (main, snd q) \<and>
               phrase_over (lemma_forms d) main \<and>
               fst q = (if dep_of d c = ''pobj''
                        then text_of d (head_of d c) @ '' '' @ main else main))) \<and>
         (get_verb_phrase res k d verb = Some verbs \<and> v \<in> set verbs \<longrightarrow>
            phrase_over (lemma_forms d) v)"
proof -
  have surface: "phrase_over (surface_forms d) (fst x) \<and>
                 (\<forall>s \<in> set (snd x). phrase_over (surface_forms d) s)"
    if "assembled_from d False x" for x
    using that by (simp add: assembled_from_def word_forms_def)
  have p1: "get_verb_subjects (Suc n) d verb = Some subjects \<and> p \<in> set subjects \<longrightarrow>
            (p = (''you'', []) \<and> (\<exists>v<length d. head_of d v = v \<and> is_imperative d v)) \<or>
            (\<exists>c<length d. dep_of d c = ''csubj'' \<and> p = (extract_clause d c, []) \<and>
               phrase_over (lemma_forms d) (fst p)) \<or>
            (\<exists>c<length d. get_compound_parts n d c False = Some p \<and>
               phrase_over (surface_forms d) (fst p) \<and>
               (\<forall>s \<in> set (snd p). phrase_over (surface_forms d) s))"
  proof
    assume h: "get_verb_subjects (Suc n) d verb = Some subjects \<and> p \<in> set subjects"
    from get_verb_subjects_shape [OF assms(1,2) conjunct1 [OF h] conjunct2 [OF h] order_refl]
    consider
        (you) "p = (''you'', [])" "\<exists>v<length d. head_of d v = v \<and> is_imperative d v"
      | (csubj) c where "c < length d" "dep_of d c = ''csubj''" "p = (extract_clause d c, [])"
      | (phrase) c where "c < length d" "get_compound_parts n d c False = Some p"
      by blast
    then show "(p = (''you'', []) \<and> (\<exists>v<length d. head_of d v = v \<and> is_imperative d v)) \<or>
            (\<exists>c<length d. dep_of d c = ''csubj'' \<and> p = (extract_clause d c, []) \<and>
               phrase_over (lemma_forms d) (fst p)) \<or>
            (\<exists>c<length d. get_compound_parts n d c False = Some p \<and>
               phrase_over (surface_forms d) (fst p) \<and>
               (\<forall>s \<in> set (snd p). phrase_over (surface_forms d) s))"
    proof cases
      case you
      then show ?thesis by blast
    next
      case csubj
      then have "phrase_over (lemma_forms d) (fst p)"
        using extract_clause_lemmas by simp
      then show ?thesis using csubj by blast
    next
      case phrase
      from surface [OF get_compound_parts_assembled [OF assms(1) phrase]]
      show ?thesis using phrase by blast
    qed
  qed
  have p2: "get_verb_objects (Suc n) d verb = Some objects \<and> q \<in> set objects \<longrightarrow>
            (\<exists>s r. s < length d \<and> dep_of d s \<in> {''nsubj'', ''nsubjpass''} \<and>
               dep_of d (head_of d s) = ''ccomp'' \<and>
               extract_subjects n d s = Some r \<and> q \<in> set r \<and>
               phrase_over (surface_forms d) (fst q) \<and>
               (\<forall>s \<in> set (snd q). phrase_over (surface_forms d) s)) \<or>
            (\<exists>c<length d. \<exists>main. get_compound_parts n d c True = Some (main, snd q) \<and>
               phrase_over (lemma_forms d) main \<and>
               fst q = (if dep_of d c = ''pobj''
                        then text_of d (head_of d c) @ '' '' @ main else main))"
  proof
    assume h: "get_verb_objects (Suc n) d verb = Some objects \<and> q \<in> set objects"
    from get_verb_objects_shape [OF assms(1,2) conjunct1 [OF h] conjunct2 [OF h] order_refl]
    consider
        (ccomp) s r where "s < length d" "dep_of d s \<in> {''nsubj'', ''nsubjpass''}"
          "dep_of d (head_of d s) = ''ccomp''" "extract_subjects n d s = Some r" "q \<in> set r"
      | (obj) c main where "c < length d" "get_compound_parts n d c True = Some (main, snd q)"
          "fst q = (if dep_of d c = ''pobj'' then text_of d (head_of d c) @ '' '' @ main else main)"
      by blast
    then show "(\<exists>s r. s < length d \<and> dep_of d s \<in> {''nsubj'', ''nsubjpass''} \<and>
               dep_of d (head_of d s) = ''ccomp'' \<and>
               extract_subjects n d s = Some r \<and> q \<in> set r \<and>
               phrase_over (surface_forms d) (fst q) \<and>
               (\<forall>s \<in> set (snd q). phrase_over (surface_forms d) s)) \<or>
            (\<exists>c<length d. \<exists>main. get_compound_parts n d c True = Some (main, snd q) \<and>
               phrase_over (lemma_forms d) main \<and>
               fst q = (if dep_of d c = ''pobj''
                        then text_of d (head_of d c) @ '' '' @ main else main))"
    proof cases
      case ccomp
      from surface [OF extract_subjects_assembled [OF assms(1) ccomp(1,4,5)]]
      show ?thesis using ccomp by blast
    next
      case obj
      from get_compound_parts_assembled [OF assms(1) obj(1,2)]
      have "phrase_over (lemma_forms d) main"
        by (simp add: assembled_from_def word_forms_def)
      then show ?thesis using obj by blast
    qed
  qed
  have p3: "get_verb_phrase res k d verb = Some verbs \<and> v \<in> set verbs \<longrightarrow>
            phrase_over (lemma_forms d) v"
    using get_verb_phrase_lemmas [OF assms] by blast
  show ?thesis
    by (rule conjI [OF p1 conjI [OF p2 p3]])
qed

theorem resolver_word_forms_witness:
  "doc_ok doc_dogs \<and>
   get_verb_subjects (Suc 2) doc_dogs 4 = Some [(''dogs'', [''of Alice''])] \<and>
   (\<exists>c<length doc_dogs. get_compound_parts 2 doc_dogs c False = Some (''dogs'', [''of Alice'']) \<and>
      phrase_over (surface_forms doc_dogs) ''dogs'' \<and>
      phrase_over (surface_forms doc_dogs) ''of Alice'') \<and>
   get_verb_objects (Suc 2) doc_dogs 4 = Some [(''cat'', []), (''in garden'', [])] \<and>
   (\<exists>c<length doc_dogs. \<exists>main. get_compound_parts 2 doc_dogs c True = Some (main, []) \<and>
      phrase_over (lemma_forms doc_dogs) main \<and>
      ''in garden'' = (if dep_of doc_dogs c = ''pobj''
                       then text_of doc_dogs (head_of doc_dogs c) @ '' '' @ main else main)) \<and>
   get_verb_phrase ex_res 3 doc_dogs 4 = Some [''chase''] \<and>
   phrase_over (lemma_forms doc_dogs) ''chase'' \<and>
   doc_ok doc_think \<and>
   get_verb_objects (Suc 2) doc_think 1 = Some [(''dogs'', [])] \<and>
   phrase_over (surface_forms doc_think) ''dogs''"
proof -
  have ok: "doc_ok doc_dogs" "doc_ok doc_think"
    by code_simp+
  have l: "4 < length doc_dogs" "1 < length doc_think"
    by (simp_all add: doc_dogs_def doc_think_def)
  have s: "get_verb_subjects (Suc 2) doc_dogs 4 = Some [(''dogs'', [''of Alice''])]"
    and o: "get_verb_objects (Suc 2) doc_dogs 4 = Some [(''cat'', []), (''in garden'', [])]"
    and v: "get_verb_phrase ex_res 3 doc_dogs 4 = Some [''chase'']"
    and t: "get_verb_objects (Suc 2) doc_think 1 = Some [(''dogs'', [])]"
    by code_simp+
  have no_ccomp: "list_all (\<lambda>s. dep_of doc_dogs (head_of doc_dogs s) \<noteq> ''ccomp'') [0..<length doc_dogs]"
    by code_simp
  have no_lemma: "list_all (\<lambda>c. get_compound_parts 2 doc_think c True \<noteq> Some (''dogs'', []) \<and>
                     dep_of doc_think c \<noteq> ''pobj'') [0..<length doc_think]"
    by code_simp
  note dogs = resolver_word_forms [OF ok(1) l(1), of 2 "[(''dogs'', [''of Alice''])]"
      "(''dogs'', [''of Alice''])" "[(''cat'', []), (''in garden'', [])]" "(''in garden'', [])"
      ex_res 3 "[''chase'']" "''chase''"]
  note think = resolver_word_forms [OF ok(2) l(2), of 2 _ _ "[(''dogs'', [])]" "(''dogs'', [])"]
  have a: "\<exists>c<length doc_dogs. get_compound_parts 2 doc_dogs c False = Some (''dogs'', [''of Alice'']) \<and>
      phrase_over (surface_forms doc_dogs) ''dogs'' \<and>
      phrase_over (surface_forms doc_dogs) ''of Alice''"
    using conjunct1 [OF dogs] s by simp
  have b: "\<exists>c<length doc_dogs. \<exists>main. get_compound_parts 2 doc_dogs c True = Some (main, []) \<and>
      phrase_over (lemma_forms doc_dogs) main \<and>
      ''in garden'' = (if dep_of doc_dogs c = ''pobj''
                       then text_of doc_dogs (head_of doc_dogs c) @ '' '' @ main else main)"
    using conjunct1 [OF conjunct2 [OF dogs]] o no_ccomp by (auto simp: list_all_iff)
  have c: "phrase_over (lemma_forms doc_dogs) ''chase''"
    using conjunct2 [OF conjunct2 [OF dogs]] v by simp
  have nl: "get_compound_parts 2 doc_think c True \<noteq> Some (''dogs'', [])"
    "dep_of doc_think c \<noteq> ''pobj''" if "c < length doc_think" for c
    using no_lemma that by (simp_all add: list_all_iff)
  have d: "phrase_over (surface_forms doc_think) ''dogs''"
    using conjunct1 [OF conjunct2 [OF think]] t by (auto simp: nl)
  from ok s a o b v c t d show ?thesis by blast
qed

subsection \<open>Termination of the traversals\<close>

lemma get_verb_subjects_loops: "get_verb_subjects n doc_loop 0 = None"
proof (induction n)
  case 0
  then show ?case by simp
next
  case (Suc n)
  have "children doc_loop 0 = []" "ancestors doc_loop 0 = []"
    "dep_of doc_loop 0 = ''conj''" "head_of doc_loop 0 = 0" "pos_of doc_loop 0 = ''VERB''"
    by (simp_all add: doc_loop_def children_def ancestors_def mk_token_def)
  then show ?case
    using Suc
    by (simp add: verb_subjects_step_def children_with_def agent_pobjs_def ancestor_subjects_def
        conj_nouns_def extend_all_def)
qed

lemma those_map_total:
  "(\<And>x. x \<in> set xs \<Longrightarrow> \<exists>y. f x = Some y) \<Longrightarrow> \<exists>ys. those (map f xs) = Some ys"
proof (induction xs)
  case Nil
  then show ?case by simp
next
  case (Cons x xs)
  then obtain y ys where "f x = Some y" "those (map f xs) = Some ys"
    by (meson list.set_intros)
  then show ?case by simp
qed

lemma extend_all_total:
  "(\<And>x. x \<in> set xs \<Longrightarrow> \<exists>y. f x = Some y) \<Longrightarrow> \<exists>r. extend_all f xs = Some r"
  using those_map_total [of xs f] by (auto simp: extend_all_def)

lemma first_nonempty_total:
  "(\<And>x. x \<in> set xs \<Longrightarrow> \<exists>y. f x = Some y) \<Longrightarrow> \<exists>r. first_nonempty f xs = Some r"
proof (induction xs)
  case Nil
  then show ?case by simp
next
  case (Cons x xs)
  then obtain y where "f x = Some y"
    by (meson list.set_intros)
  moreover have "\<exists>r. first_nonempty f xs = Some r"
    using Cons by simp
  ultimately show ?case
    by (cases y) auto
qed

lemma fold_conjuncts_total:
  assumes rec: "\<And>c v. c < length d \<Longrightarrow> c \<notin> v \<Longrightarrow> v0 \<subseteq> v \<Longrightarrow> v \<subseteq> {..<length d} \<Longrightarrow>
                  \<exists>r v'. rec c v = Some (r, v') \<and> insert c v \<subseteq> v' \<and> v' \<subseteq> {..<length d}"
  shows "set cs \<subseteq> {..<length d} \<Longrightarrow> v0 \<subseteq> v \<Longrightarrow> v \<subseteq> {..<length d} \<Longrightarrow>
         \<exists>acc' v'.
           fold (\<lambda>conj st.
                   do {
                     (conjuncts, vis) \<leftarrow> st;
                     if conj \<notin> vis
                     then do { (more, vis') \<leftarrow> rec conj vis; Some (conjuncts @ more, vis') }
                     else Some (conjuncts, vis)
                   }) cs (Some (acc, v)) = Some (acc', v') \<and> v \<subseteq> v' \<and> v' \<subseteq> {..<length d}"
proof (induction cs arbitrary: acc v)
  case Nil
  then show ?case by simp
next
  case (Cons c cs)
  show ?case
  proof (cases "c \<in> v")
    case True
    then show ?thesis
      using Cons.IH [of v acc] Cons.prems by simp
  next
    case False
    have "c < length d"
      using Cons.prems(1) by simp
    from rec [OF this False Cons.prems(2,3)] obtain r v' where
      r: "rec c v = Some (r, v')" "insert c v \<subseteq> v'" "v' \<subseteq> {..<length d}"
      by blast
    have "v0 \<subseteq> v'" "v \<subseteq> v'"
      using r(2) Cons.prems(2) by auto
    with Cons.IH [of v' "acc @ r"] Cons.prems(1) r(3) obtain acc' v'' where
      "fold (\<lambda>conj st.
                   do {
                     (conjuncts, vis) \<leftarrow> st;
                     if conj \<notin> vis
                     then do { (more, vis') \<leftarrow> rec conj vis; Some (conjuncts @ more, vis') }
                     else Some (conjuncts, vis)
                   }) cs (Some (acc @ r, v')) = Some (acc', v'')" "v' \<subseteq> v''" "v'' \<subseteq> {..<length d}"
      by auto
    then show ?thesis
      using False r(1) \<open>v \<subseteq> v'\<close> by auto
  qed
qed

lemma get_conjuncts_total:
  assumes "doc_ok d"
  shows "t < length d \<Longrightarrow> t \<notin> vis \<Longrightarrow> vis \<subseteq> {..<length d} \<Longrightarrow>
         card ({..<length d} - vis) \<le> n \<Longrightarrow>
         \<exists>r vis'. get_conjuncts n d t vis = Some (r, vis') \<and> insert t vis \<subseteq> vis' \<and>
                   vis' \<subseteq> {..<length d}"
proof (induction n arbitrary: t vis)
  case 0
  then have "t \<in> {..<length d} - vis" "{..<length d} - vis = {}"
    by auto
  then show ?case by simp
next
  case (Suc n)
  have cs: "set (conjuncts_of d t) \<subseteq> {..<length d}"
    using doc_okD(2) [OF assms Suc.prems(1)] by auto
  have t: "t \<in> {..<length d} - vis"
    using Suc.prems by simp
  have card: "card ({..<length d} - insert t vis) \<le> n"
  proof -
    have "{..<length d} - insert t vis = ({..<length d} - vis) - {t}"
      by auto
    then have "card ({..<length d} - insert t vis) = card ({..<length d} - vis) - 1"
      using t by simp
    then show ?thesis
      using Suc.prems(4) by simp
  qed
  have rec: "\<exists>r v'. get_conjuncts n d c v = Some (r, v') \<and> insert c v \<subseteq> v' \<and> v' \<subseteq> {..<length d}"
    if "c < length d" "c \<notin> v" "insert t vis \<subseteq> v" "v \<subseteq> {..<length d}" for c v
  proof -
    have "{..<length d} - v \<subseteq> {..<length d} - insert t vis"
      using that(3) by auto
    then have "card ({..<length d} - v) \<le> card ({..<length d} - insert t vis)"
      by (intro card_mono) auto
    then show ?thesis
      using Suc.IH [OF that(1,2,4)] card by simp
  qed
  have "insert t vis \<subseteq> {..<length d}"
    using Suc.prems by simp
  from fold_conjuncts_total [of d "insert t vis" "get_conjuncts n d", OF rec cs subset_refl this, of "[t]"]
  show ?case
    by (simp add: conjuncts_step_def)
qed


lemma rankedD:
  assumes "ranked d rk N" "t < length d"
  shows "rk t < N"
    and "head_of d t \<noteq> t \<Longrightarrow> rk t < rk (head_of d t)"
    and "head_of d t = t \<Longrightarrow> dep_of d t \<noteq> ''conj''"
    and "dep_of d t \<noteq> ''conj'' \<Longrightarrow> c \<in> set (conjuncts_of d t) \<Longrightarrow> rk c < rk t"
  using assms by (auto simp: ranked_def list_all_iff split: if_splits)

lemma child_rank:
  assumes "ranked d rk N" "c \<in> set (children d t)"
  shows "c < length d \<and> rk c < rk t"
proof -
  from assms(2) have c: "c < length d" "c \<noteq> t" "head_of d c = t"
    by (auto simp: children_def)
  then show ?thesis
    using rankedD(2) [OF assms(1) c(1)] by simp
qed

lemma acl_parts_total:
  assumes "\<And>s. s \<in> set (children d child) \<Longrightarrow> \<exists>p. rec s = Some p"
  shows "\<exists>r. acl_parts rec d lemmatize child = Some r"
proof -
  have "\<exists>subs. those (map rec [t \<leftarrow> children d child. dep_of d t = ''nsubj'']) = Some subs"
    using assms by (intro those_map_total) auto
  then show ?thesis
    by (auto simp: acl_parts_def)
qed

lemma prep_phrase_total:
  assumes "\<And>pobj c. pobj \<in> set (children d p) \<Longrightarrow> dep_of d pobj = ''pobj'' \<Longrightarrow>
             c = pobj \<or> c \<in> set (conjuncts_of d pobj) \<Longrightarrow> \<exists>q. rec c = Some q"
  shows "\<exists>s. prep_phrase rec d p = Some s"
proof -
  have "\<exists>items. those (map rec (concat (map (\<lambda>pobj. pobj # conjuncts_of d pobj)
            [child \<leftarrow> children d p. dep_of d child = ''pobj'']))) = Some items"
    using assms by (intro those_map_total) auto
  then show ?thesis
    by (auto simp: prep_phrase_def)
qed

lemma get_compound_parts_total:
  assumes "doc_ok d" "ranked d rk N"
  shows "token < length d \<Longrightarrow> rk token < n \<Longrightarrow> \<exists>p. get_compound_parts n d token lemmatize = Some p"
proof (induction n arbitrary: token)
  case 0
  then show ?case by simp
next
  case (Suc n)
  let ?rec = "\<lambda>t. get_compound_parts n d t lemmatize"
  have rec: "\<exists>p. ?rec c = Some p" if "c < length d" "rk c < rk token" for c
    using Suc.IH [OF that(1)] that(2) Suc.prems(2) by simp
  have "\<exists>r. acl_parts ?rec d lemmatize child = Some r" if "child \<in> set (children d token)" for child
  proof (rule acl_parts_total)
    fix s assume "s \<in> set (children d child)"
    then have "s < length d" "rk s < rk child"
      using child_rank [OF assms(2)] by simp_all
    moreover have "rk child < rk token"
      using child_rank [OF assms(2) that] by simp
    ultimately have "s < length d" "rk s < rk token"
      by simp_all
    then show "\<exists>p. ?rec s = Some p" by (rule rec)
  qed
  then have "\<exists>acls. those (map (acl_parts ?rec d lemmatize)
                 [child \<leftarrow> children d token. dep_of d child \<in> {''acl'', ''relcl''}]) = Some acls"
    by (intro those_map_total) auto
  moreover
  have "\<exists>s. prep_phrase ?rec d p = Some s"
    if p: "prep \<in> set (children d token)" "dep_of d prep = ''prep''"
      "p = prep \<or> p \<in> set (conjuncts_of d prep)" for prep p
  proof (rule prep_phrase_total)
    fix pobj c
    assume pobj: "pobj \<in> set (children d p)" "dep_of d pobj = ''pobj''"
      and c: "c = pobj \<or> c \<in> set (conjuncts_of d pobj)"
    have prep: "prep < length d" "rk prep < rk token"
      using child_rank [OF assms(2) p(1)] by simp_all
    have "rk p \<le> rk prep"
      using p(3) rankedD(4) [OF assms(2) prep(1), of p] p(2) by auto
    moreover have "pobj < length d" "rk pobj < rk p"
      using child_rank [OF assms(2) pobj(1)] by simp_all
    moreover have "c < length d"
      using c doc_okD(2) [OF assms(1) \<open>pobj < length d\<close>] \<open>pobj < length d\<close> by blast
    moreover have "rk c \<le> rk pobj"
      using c rankedD(4) [OF assms(2) \<open>pobj < length d\<close>, of c] pobj(2) by auto
    ultimately have "c < length d" "rk c < rk token"
      using prep(2) by simp_all
    then show "\<exists>q. ?rec c = Some q" by (rule rec)
  qed
  then have "\<exists>preps. those (map (prep_phrase ?rec d)
                 (concat (map (\<lambda>prep. prep # conjuncts_of d prep)
                    [child \<leftarrow> children d token. dep_of d child = ''prep'']))) = Some preps"
    by (intro those_map_total) auto
  ultimately show ?case
    by (auto simp: compound_parts_step_def)
qed

lemma extract_subjects_total:
  assumes "doc_ok d" "ranked d rk N" "token < length d" "N \<le> n"
  shows "\<exists>r. extract_subjects n d token = Some r"
  unfolding extract_subjects_def
proof (rule those_map_total)
  fix c
  assume "c \<in> set ((if is_nominal d token then [token] else []) @
                 [conj \<leftarrow> conjuncts_of d token. is_nominal d conj])"
  then have "c < length d"
    using assms(3) doc_okD(2) [OF assms(1,3)] by (auto split: if_splits)
  then show "\<exists>y. get_compound_parts n d c False = Some y"
    using get_compound_parts_total [OF assms(1,2)] rankedD(1) [OF assms(2)] assms(4)
    by (meson less_le_trans)
qed

lemma verb_subjects_step_total:
  assumes "doc_ok d" "ranked d rk N" "verb < length d" "N \<le> n"
    and rec: "dep_of d verb = ''conj'' \<Longrightarrow> \<exists>r. rec (head_of d verb) = Some r"
  shows "\<exists>r. verb_subjects_step rec n d verb = Some r"
proof -
  have es: "\<exists>r. extract_subjects n d c = Some r" if "c < length d" for c
    using extract_subjects_total [OF assms(1,2) that assms(4)] .
  have all: "\<exists>r. extend_all (extract_subjects n d) cs = Some r" if "set cs \<subseteq> {..<length d}" for cs
    using that es by (intro extend_all_total) auto
  have first: "\<exists>r. first_nonempty (extract_subjects n d) cs = Some r" if "set cs \<subseteq> {..<length d}" for cs
    using that es by (intro first_nonempty_total) auto
  show ?thesis
  proof (cases "dep_of d verb \<in> {''acl'', ''relcl''}")
    case True
    have "\<exists>p. get_compound_parts n d (head_of d verb) False = Some p"
      using get_compound_parts_total [OF assms(1,2) doc_okD(1) [OF assms(1,3)]]
        rankedD(1) [OF assms(2) doc_okD(1) [OF assms(1,3)]] assms(4)
      by (meson less_le_trans)
    moreover have "\<exists>r. extend_all (extract_subjects n d) (children_with d verb {''nsubj''}) = Some r"
      by (rule all) (auto dest: children_with_in_range)
    ultimately show ?thesis
      using True by (auto simp: verb_subjects_step_def)
  next
    case False
    have "set (children_with d verb {''nsubj''}) \<subseteq> {..<length d}"
      by (auto dest: children_with_in_range)
    from all [OF this] obtain direct where direct:
      "extend_all (extract_subjects n d) (children_with d verb {''nsubj''}) = Some direct"
      by blast
    have "set (agent_pobjs d verb) \<subseteq> {..<length d}"
      by (auto simp: agent_pobjs_def dest: children_with_in_range)
    from all [OF this] obtain agents where agents:
      "(if list_ex (\<lambda>child. dep_of d child = ''nsubjpass'') (children d verb)
        then extend_all (extract_subjects n d) (agent_pobjs d verb) else Some []) = Some agents"
      by (cases "list_ex (\<lambda>child. dep_of d child = ''nsubjpass'') (children d verb)") auto
    let ?s3 = "direct @ map (\<lambda>csubj. (extract_clause d csubj, [])) (children_with d verb {''csubj''}) @ agents"
    have "set (ancestor_subjects d verb) \<subseteq> {..<length d}"
      by (auto simp: ancestor_subjects_def dest: children_with_in_range)
    from first [OF this] obtain s4 where s4:
      "(if ?s3 = [] then first_nonempty (extract_subjects n d) (ancestor_subjects d verb)
        else Some ?s3) = Some s4"
      by (cases "?s3 = []") auto
    obtain s5 where s5:
      "(if s4 = [] \<and> dep_of d verb = ''conj'' \<and> pos_of d (head_of d verb) = ''VERB''
        then rec (head_of d verb) else Some s4) = Some s5"
      using rec
      by (cases "s4 = [] \<and> dep_of d verb = ''conj'' \<and> pos_of d (head_of d verb) = ''VERB''") auto
    have "set (conj_nouns d verb) \<subseteq> {..<length d}"
      by (auto simp: conj_nouns_def dest: children_in_range)
    from all [OF this] obtain nouns where nouns:
      "extend_all (extract_subjects n d) (conj_nouns d verb) = Some nouns"
      by blast
    show ?thesis
      unfolding verb_subjects_step_def if_not_P [OF False] direct agents Option.bind.simps Let_def
        s4 s5 nouns
      by blast
  qed
qed

lemma get_verb_subjects_total:
  assumes "doc_ok d" "ranked d rk N"
  shows "verb < length d \<Longrightarrow> N + (N - rk verb) \<le> n \<Longrightarrow> \<exists>r. get_verb_subjects n d verb = Some r"
proof (induction n arbitrary: verb)
  case 0
  then show ?case
    using rankedD(1) [OF assms(2), of verb] by simp
next
  case (Suc n)
  have rk: "rk verb < N"
    using rankedD(1) [OF assms(2) Suc.prems(1)] .
  have n: "N \<le> n"
    using Suc.prems(2) rk by simp
  have "\<exists>r. get_verb_subjects n d (head_of d verb) = Some r" if conj: "dep_of d verb = ''conj''"
  proof -
    have h: "head_of d verb \<noteq> verb"
      using rankedD(3) [OF assms(2) Suc.prems(1)] conj by blast
    then have "rk verb < rk (head_of d verb)"
      using rankedD(2) [OF assms(2) Suc.prems(1)] by simp
    moreover have hd: "head_of d verb < length d"
      using doc_okD(1) [OF assms(1) Suc.prems(1)] .
    moreover have "rk (head_of d verb) < N"
      using rankedD(1) [OF assms(2) hd] .
    ultimately have "N + (N - rk (head_of d verb)) \<le> n"
      using Suc.prems(2) by simp
    then show ?thesis
      using Suc.IH [OF hd] by simp
  qed
  then show ?case
    using verb_subjects_step_total [OF assms Suc.prems(1) n, of "get_verb_subjects n d"] by simp
qed

text \<open>
  Claim C10 says that the subject inheritance of \<open>get_verb_subjects\<close> is guarded by a
  visited set and terminates on every finite token structure. The function has no such
  guard: on a verb that is labelled \<^verbatim>\<open>conj\<close> and is its own head it calls itself on the
  same token, at every depth, until the recursion bound is hit.
\<close>

theorem get_verb_subjects_self_conj_counterexample:
  "doc_ok doc_loop \<and> get_verb_subjects 1000 doc_loop 0 = None \<and>
   (\<forall>n. get_verb_subjects n doc_loop 0 = None)"
proof -
  have "doc_ok doc_loop"
    by code_simp
  then show ?thesis
    using get_verb_subjects_loops by simp
qed

text \<open>
  Claim C10, amended. In a document in order (heads and conjuncts are tokens of the
  document): \<open>get_conjuncts\<close>, which carries the visited set, returns for every token
  within a recursion depth of the number of tokens, whatever cycles the conjunct links
  form; \<open>get_verb_subjects\<close>, which carries none, returns within depth \<open>2 * N\<close> when the
  document is ranked below \<open>N\<close>: the rank grows along every head link, no root is labelled
  \<^verbatim>\<open>conj\<close>, and the conjuncts of a token not labelled \<^verbatim>\<open>conj\<close> have a smaller rank.
\<close>

theorem traversals_terminate:
  assumes "doc_ok d" "token < length d"
  shows "(length d \<le> n \<longrightarrow>
            (\<exists>conjuncts visited. get_conjuncts n d token {} = Some (conjuncts, visited))) \<and>
         (ranked d rk N \<and> 2 * N \<le> n \<longrightarrow>
            (\<exists>subjects. get_verb_subjects n d token = Some subjects))"
proof -
  have p1: "length d \<le> n \<longrightarrow>
            (\<exists>conjuncts visited. get_conjuncts n d token {} = Some (conjuncts, visited))"
  proof
    assume "length d \<le> n"
    then have "card ({..<length d} - {}) \<le> n"
      by simp
    from get_conjuncts_total [OF assms(1,2) _ _ this]
    show "\<exists>conjuncts visited. get_conjuncts n d token {} = Some (conjuncts, visited)"
      by auto
  qed
  have p2: "ranked d rk N \<and> 2 * N \<le> n \<longrightarrow>
            (\<exists>subjects. get_verb_subjects n d token = Some subjects)"
  proof
    assume h: "ranked d rk N \<and> 2 * N \<le> n"
    then have "2 * N \<le> n"
      by simp
    then have "N + (N - rk token) \<le> n"
      by arith
    then show "\<exists>subjects. get_verb_subjects n d token = Some subjects"
      using get_verb_subjects_total [OF assms(1) _ assms(2)] h by blast
  qed
  show ?thesis
    by (rule conjI [OF p1 p2])
qed

theorem traversals_terminate_witness:
  "doc_ok doc_alice_bob \<and>
   conjuncts_of doc_alice_bob 0 = [2] \<and> conjuncts_of doc_alice_bob 2 = [0] \<and>
   get_conjuncts 4 doc_alice_bob 0 {} = Some ([0, 2], {0, 2}) \<and>
   (\<exists>conjuncts visited. get_conjuncts 4 doc_alice_bob 0 {} = Some (conjuncts, visited)) \<and>
   ranked doc_alice_bob (\<lambda>t. [1, 0, 0, 2] ! t) 3 \<and>
   get_verb_subjects 6 doc_alice_bob 3 = Some [(''Alice'', []), (''Bob'', [])] \<and>
   (\<exists>subjects. get_verb_subjects 6 doc_alice_bob 3 = Some subjects)"
proof -
  have ok: "doc_ok doc_alice_bob"
    by code_simp
  have l: "0 < length doc_alice_bob" "3 < length doc_alice_bob" "length doc_alice_bob \<le> 4"
    by (simp_all add: doc_alice_bob_def)
  have r: "ranked doc_alice_bob (\<lambda>t. [1, 0, 0, 2] ! t) 3"
    by code_simp
  have c: "conjuncts_of doc_alice_bob 0 = [2]" "conjuncts_of doc_alice_bob 2 = [0]"
    "get_conjuncts 4 doc_alice_bob 0 {} = Some ([0, 2], {0, 2})"
    "get_verb_subjects 6 doc_alice_bob 3 = Some [(''Alice'', []), (''Bob'', [])]"
    by code_simp+
  show ?thesis
    using ok r c l(3)
      traversals_terminate [OF ok l(1), of 4]
      traversals_terminate [OF ok l(2), of 6 "\<lambda>t. [1, 0, 0, 2] ! t" 3]
    by simp
qed

subsection \<open>Object resolution and extraction on ranked documents\<close>

lemma extract_objects_total:
  assumes "doc_ok d" "ranked d rk N" "token < length d" "N \<le> n"
  shows "\<exists>r. extract_objects n d token = Some r"
  unfolding extract_objects_def
proof (rule those_map_total)
  fix c
  assume "c \<in> set ((if is_nominal d token \<or> py_in_str (dep_of d token) ''acomp''
                     then [token] else []) @
                 [conj \<leftarrow> conjuncts_of d token.
                    pos_of d conj \<in> {''NOUN'', ''PROPN'', ''PRON'', ''ADJ''}])"
  then have "c < length d"
    using assms(3) doc_okD(2) [OF assms(1,3)] by (auto split: if_splits)
  then have "\<exists>y. get_compound_parts n d c True = Some y"
    using get_compound_parts_total [OF assms(1,2)] rankedD(1) [OF assms(2)] assms(4)
    by (meson less_le_trans)
  then show "\<exists>y. object_phrase n d c = Some y"
    by (auto simp: object_phrase_def)
qed

lemma process_objects_total:
  assumes "doc_ok d" "ranked d rk N" "set cs \<subseteq> {..<length d}" "N \<le> n"
  shows "\<exists>r. process_objects n d cs = Some r"
  unfolding process_objects_def
  using assms(3) extract_objects_total [OF assms(1,2) _ assms(4)]
  by (intro extend_all_total) auto

lemma prep_objects_total:
  assumes "doc_ok d" "ranked d rk N" "prep < length d" "N \<le> n" "length d \<le> n"
  shows "\<exists>r. prep_objects n d prep = Some r"
proof -
  have "card ({..<length d} - {}) \<le> n"
    using assms(5) by simp
  from get_conjuncts_total [OF assms(1,3) _ _ this]
  obtain preps visited where g: "get_conjuncts n d prep {} = Some (preps, visited)"
    by auto
  have "\<exists>r. extend_all (\<lambda>p. process_objects n d (children_with d p {''pobj''})) preps = Some r"
  proof (rule extend_all_total)
    fix p
    show "\<exists>y. process_objects n d (children_with d p {''pobj''}) = Some y"
      by (rule process_objects_total [OF assms(1,2) _ assms(4)])
         (auto dest: children_with_in_range)
  qed
  then show ?thesis
    using g by (auto simp: prep_objects_def)
qed

lemma xcomp_objects_total:
  assumes "doc_ok d" "ranked d rk N" "N \<le> n" "\<exists>r. rec x = Some r"
  shows "\<exists>r. xcomp_objects rec n d x = Some r"
proof -
  obtain found where found: "rec x = Some found"
    using assms(4) by blast
  have "\<exists>r. extend_all (extract_objects n d) (children_with d x {''dobj'', ''attr'', ''oprd''}) = Some r"
    using extract_objects_total [OF assms(1,2) _ assms(3)]
    by (intro extend_all_total) (auto dest: children_with_in_range)
  then show ?thesis
    using found by (auto simp: xcomp_objects_def)
qed

lemma verb_objects_step_total:
  assumes "doc_ok d" "ranked d rk N" "verb < length d" "N \<le> n" "length d \<le> n"
    and rec: "\<And>c. c \<in> set (children d verb) \<Longrightarrow> \<exists>r. rec c = Some r"
  shows "\<exists>r. verb_objects_step rec n d verb = Some r"
proof -
  have po: "\<exists>r. process_objects n d cs = Some r" if "set cs \<subseteq> set (children d verb)" for cs
    using that by (intro process_objects_total [OF assms(1,2) _ assms(4)])
                  (auto dest: children_in_range)
  have cw: "set (children_with d verb deps) \<subseteq> set (children d verb)" for deps
    by (auto simp: children_with_def)
  obtain direct where direct:
    "process_objects n d (children_with d verb {''dobj'', ''attr'', ''oprd'', ''acomp''}) = Some direct"
    using po [OF cw] by blast
  obtain indirect where indirect:
    "process_objects n d (children_with d verb {''iobj''}) = Some indirect"
    using po [OF cw] by blast
  have "\<exists>r. extend_all (prep_objects n d) (children_with d verb {''prep''}) = Some r"
    using prep_objects_total [OF assms(1,2) _ assms(4,5)]
    by (intro extend_all_total) (auto dest: children_with_in_range)
  then obtain prepositional where prepositional:
    "extend_all (prep_objects n d) (children_with d verb {''prep''}) = Some prepositional"
    by blast
  obtain passives where pas:
    "(if tag_of d verb \<in> {''VBN'', ''VBD''} \<and>
         list_ex (\<lambda>child. dep_of d child = ''nsubjpass'') (children d verb)
      then process_objects n d (children_with d verb {''nsubjpass''})
      else Some []) = Some passives"
    using po [OF cw, of "{''nsubjpass''}"]
    by (cases "tag_of d verb \<in> {''VBN'', ''VBD''} \<and>
         list_ex (\<lambda>child. dep_of d child = ''nsubjpass'') (children d verb)") auto
  have "set [child \<leftarrow> children d verb.
               dep_of d child = ''npadvmod'' \<and> pos_of d child \<in> {''PROPN'', ''PRON''}]
        \<subseteq> set (children d verb)"
    by auto
  from po [OF this] obtain npadvmod where npadvmod:
    "process_objects n d
       [child \<leftarrow> children d verb.
          dep_of d child = ''npadvmod'' \<and> pos_of d child \<in> {''PROPN'', ''PRON''}] = Some npadvmod"
    by blast
  have "\<exists>r. extend_all
               (\<lambda>child. extend_all (extract_subjects n d)
                          (children_with d child {''nsubj'', ''nsubjpass''}))
               (children_with d verb {''ccomp''}) = Some r"
  proof (rule extend_all_total)
    fix child
    show "\<exists>y. extend_all (extract_subjects n d)
                 (children_with d child {''nsubj'', ''nsubjpass''}) = Some y"
      using extract_subjects_total [OF assms(1,2) _ assms(4)]
      by (intro extend_all_total) (auto dest: children_with_in_range)
  qed
  then obtain ccomp where ccomp:
    "extend_all
       (\<lambda>child. extend_all (extract_subjects n d) (children_with d child {''nsubj'', ''nsubjpass''}))
       (children_with d verb {''ccomp''}) = Some ccomp"
    by blast
  have "\<exists>r. extend_all (xcomp_objects rec n d) (children_with d verb {''xcomp''}) = Some r"
  proof (rule extend_all_total)
    fix x assume "x \<in> set (children_with d verb {''xcomp''})"
    then have "\<exists>r. rec x = Some r"
      using rec cw by blast
    then show "\<exists>y. xcomp_objects rec n d x = Some y"
      by (rule xcomp_objects_total [OF assms(1,2,4)])
  qed
  then obtain xcomp where xcomp:
    "extend_all (xcomp_objects rec n d) (children_with d verb {''xcomp''}) = Some xcomp"
    by blast
  let ?objects = "direct @ indirect @ prepositional @ passives @ npadvmod @ ccomp @ xcomp"
  have "\<exists>r. first_nonempty rec
          [child \<leftarrow> children d verb. dep_of d child = ''conj'' \<and> pos_of d child = ''VERB''] = Some r"
    using rec by (intro first_nonempty_total) auto
  then have "\<exists>r. (if ?objects = []
        then first_nonempty rec
          [child \<leftarrow> children d verb. dep_of d child = ''conj'' \<and> pos_of d child = ''VERB'']
        else Some ?objects) = Some r"
    by (cases "?objects = []") auto
  then show ?thesis
    unfolding verb_objects_step_def direct indirect prepositional pas npadvmod ccomp xcomp
      Option.bind.simps Let_def
    by blast
qed

lemma get_verb_objects_total:
  assumes "doc_ok d" "ranked d rk N"
  shows "verb < length d \<Longrightarrow> N + length d + rk verb < n \<Longrightarrow>
         \<exists>r. get_verb_objects n d verb = Some r"
proof (induction n arbitrary: verb)
  case 0
  then show ?case by simp
next
  case (Suc n)
  have n: "N \<le> n" "length d \<le> n"
    using Suc.prems(2) by simp_all
  have "\<exists>r. get_verb_objects n d c = Some r" if "c \<in> set (children d verb)" for c
  proof -
    have "c < length d" "rk c < rk verb"
      using child_rank [OF assms(2) that] by simp_all
    then show ?thesis
      using Suc.IH [of c] Suc.prems(2) by simp
  qed
  then show ?case
    using verb_objects_step_total [OF assms Suc.prems(1) n, of "get_verb_objects n d"] by simp
qed

lemma get_verb_phrase_total:
  assumes "doc_ok d" "ranked d rk N"
  shows "verb < length d \<Longrightarrow> rk verb < n \<Longrightarrow> \<exists>r. get_verb_phrase res n d verb = Some r"
proof (induction n arbitrary: verb)
  case 0
  then show ?case by simp
next
  case (Suc n)
  have compound: "\<exists>ys. those (map (\<lambda>child. get_compound_parts n d child True) cs) = Some ys"
    if "set cs \<subseteq> set (children d verb)" for cs
  proof (rule those_map_total)
    fix c assume "c \<in> set cs"
    then have "c < length d \<and> rk c < rk verb"
      using that child_rank [OF assms(2)] by blast
    then show "\<exists>y. get_compound_parts n d c True = Some y"
      using get_compound_parts_total [OF assms] Suc.prems(2) by simp
  qed
  obtain advs_before where before:
    "those (map (\<lambda>child. get_compound_parts n d child True)
       [child \<leftarrow> lefts d verb. is_adverbial res d child]) = Some advs_before"
    using compound [of "[child \<leftarrow> lefts d verb. is_adverbial res d child]"]
    by (auto simp: lefts_def)
  obtain advs_after where after:
    "those (map (\<lambda>child. get_compound_parts n d child True)
       [child \<leftarrow> rights d verb. is_adverbial res d child]) = Some advs_after"
    using compound [of "[child \<leftarrow> rights d verb. is_adverbial res d child]"]
    by (auto simp: rights_def)
  have "\<exists>r. extend_all (xcomp_parts (get_verb_phrase res n d) d)
          [child \<leftarrow> children d verb. dep_of d child \<in> {''xcomp''}] = Some r"
  proof (rule extend_all_total)
    fix c assume "c \<in> set [child \<leftarrow> children d verb. dep_of d child \<in> {''xcomp''}]"
    then have "c \<in> set (children d verb)"
      by simp
    then have "c < length d \<and> rk c < rk verb"
      by (rule child_rank [OF assms(2)])
    then have "\<exists>r. get_verb_phrase res n d c = Some r"
      using Suc.IH Suc.prems(2) by simp
    then show "\<exists>y. xcomp_parts (get_verb_phrase res n d) d c = Some y"
      by (auto simp: xcomp_parts_def)
  qed
  then obtain xcomps where xcomps:
    "extend_all (xcomp_parts (get_verb_phrase res n d) d)
          [child \<leftarrow> children d verb. dep_of d child \<in> {''xcomp''}] = Some xcomps"
    by blast
  show ?case
    using before after xcomps by (simp add: verb_phrase_step_def)
qed

lemma extract_svos_total:
  assumes "doc_ok d" "ranked d rk N" "2 * N + length d \<le> n"
  shows "\<exists>t. extract_svos res lib n d = Some t"
proof -
  have "\<exists>ys. those (map (svo_of res n d) [possible_verb \<leftarrow> [0..<length d]. qualifies d possible_verb]) = Some ys"
  proof (rule those_map_total)
    fix v assume "v \<in> set [possible_verb \<leftarrow> [0..<length d]. qualifies d possible_verb]"
    then have v: "v < length d"
      by simp
    have rk: "rk v < N"
      using rankedD(1) [OF assms(2) v] .
    have "N + (N - rk v) \<le> n"
      using assms(3) by arith
    from get_verb_subjects_total [OF assms(1,2) v this]
    obtain subjects where s: "get_verb_subjects n d v = Some subjects"
      by blast
    have "N + length d + rk v < n"
      using assms(3) rk by arith
    from get_verb_objects_total [OF assms(1,2) v this]
    obtain objects where o: "get_verb_objects n d v = Some objects"
      by blast
    have "rk v < n"
      using assms(3) rk by arith
    from get_verb_phrase_total [OF assms(1,2) v this]
    obtain verbs where p: "get_verb_phrase res n d v = Some verbs"
      by blast
    show "\<exists>y. svo_of res n d v = Some y"
      by (simp add: svo_of_def s o p)
  qed
  then show ?thesis
    by (auto simp: extract_svos_def svo_triples_of_def)
qed

subsection \<open>Passive voice on ranked documents\<close>










subsection \<open>The rows of a token in the table\<close>



subsection \<open>Synonym rows in the table\<close>

text \<open>
  Claim C4. On a document in order and ranked, extraction returns a table once the
  recursion bound reaches twice the rank bound plus the number of tokens. Whenever
  extraction returns a table, the table is the syntactic rows (provenance 0) followed by
  the semantic rows (provenance 1, trace \<^verbatim>\<open>N/A\<close>). For two distinct subject strings of
  the document that \<open>are_synonyms\<close> reports as synonymous there is exactly one semantic
  Who-Who row linking them, however often each string is resolved; likewise for two
  object strings and What-What rows. There are no other semantic rows: each links two
  distinct synonymous subject strings as Who-Who, or two distinct synonymous object
  strings as What-What. (The order in which \<^verbatim>\<open>list(set(...))\<close> lists the strings is
  left open: any duplicate-free listing of the same strings.)
\<close>

theorem synonym_augmentation:
  "(doc_ok d \<and> ranked d rk N \<and> 2 * N + length d \<le> m \<longrightarrow>
      (\<exists>t. extract_svos res lib m d = Some t)) \<and>
   (list_set_ok (list_set lib) \<and> extract_svos res lib n d = Some t \<longrightarrow>
      (\<exists>syntactic semantic.
         df_rows t = syntactic @ semantic \<and>
         (\<forall>r \<in> set syntactic. Semantic_Syntactic r = 0) \<and>
         (\<forall>r \<in> set semantic. Semantic_Syntactic r = 1 \<and> Hypergraph r = ''N/A'') \<and>
         (\<forall>a b. a \<in> subject_strings n d \<and> b \<in> subject_strings n d \<and>
                a \<noteq> b \<and> are_synonyms (synsets lib) (lemma_names lib) a b \<longrightarrow>
                length (links ''Who'' a b semantic) = 1) \<and>
         (\<forall>a b. a \<in> object_strings n d \<and> b \<in> object_strings n d \<and>
                a \<noteq> b \<and> are_synonyms (synsets lib) (lemma_names lib) a b \<longrightarrow>
                length (links ''What'' a b semantic) = 1) \<and>
         (\<forall>r \<in> set semantic.
            Node_1 r \<noteq> Node_2 r \<and>
            are_synonyms (synsets lib) (lemma_names lib) (Node_1 r) (Node_2 r) \<and>
            (WDW r = ''Who'' \<and> WDW2 r = ''Who'' \<and>
             Node_1 r \<in> subject_strings n d \<and> Node_2 r \<in> subject_strings n d \<or>
             WDW r = ''What'' \<and> WDW2 r = ''What'' \<and>
             Node_1 r \<in> object_strings n d \<and> Node_2 r \<in> object_strings n d))))"
proof (rule conjI)
  show "doc_ok d \<and> ranked d rk N \<and> 2 * N + length d \<le> m \<longrightarrow>
      (\<exists>t. extract_svos res lib m d = Some t)"
    using extract_svos_total by blast
next
  show "list_set_ok (list_set lib) \<and> extract_svos res lib n d = Some t \<longrightarrow>
      (\<exists>syntactic semantic.
         df_rows t = syntactic @ semantic \<and>
         (\<forall>r \<in> set syntactic. Semantic_Syntactic r = 0) \<and>
         (\<forall>r \<in> set semantic. Semantic_Syntactic r = 1 \<and> Hypergraph r = ''N/A'') \<and>
         (\<forall>a b. a \<in> subject_strings n d \<and> b \<in> subject_strings n d \<and>
                a \<noteq> b \<and> are_synonyms (synsets lib) (lemma_names lib) a b \<longrightarrow>
                length (links ''Who'' a b semantic) = 1) \<and>
         (\<forall>a b. a \<in> object_strings n d \<and> b \<in> object_strings n d \<and>
                a \<noteq> b \<and> are_synonyms (synsets lib) (lemma_names lib) a b \<longrightarrow>
                length (links ''What'' a b semantic) = 1) \<and>
         (\<forall>r \<in> set semantic.
            Node_1 r \<noteq> Node_2 r \<and>
            are_synonyms (synsets lib) (lemma_names lib) (Node_1 r) (Node_2 r) \<and>
            (WDW r = ''Who'' \<and> WDW2 r = ''Who'' \<and>
             Node_1 r \<in> subject_strings n d \<and> Node_2 r \<in> subject_strings n d \<or>
             WDW r = ''What'' \<and> WDW2 r = ''What'' \<and>
             Node_1 r \<in> object_strings n d \<and> Node_2 r \<in> object_strings n d)))"
    by (rule impI, elim conjE, rule synonym_rows_of_table; assumption)
qed

theorem synonym_augmentation_witness:
  "doc_ok doc_crushed \<and> ranked doc_crushed (\<lambda>t. [0, 1, 0, 0, 1, 0, 0, 1, 0] ! t) 2 \<and>
   (\<exists>t. extract_svos ex_res ex_lib 13 doc_crushed = Some t) \<and>
   extract_svos ex_res ex_lib 3 doc_crushed =
     Some \<lparr>df_columns = table_columns,
           df_rows = [mk_row ''car'' ''Who'' ''crush'' ''Did'' ''[...]'' 0,
                      mk_row ''crush'' ''Did'' ''apple'' ''What'' ''[...]'' 0,
                      mk_row ''automobile'' ''Who'' ''crush'' ''Did'' ''[...]'' 0,
                      mk_row ''crush'' ''Did'' ''pome'' ''What'' ''[...]'' 0,
                      mk_row ''car'' ''Who'' ''crush'' ''Did'' ''[...]'' 0,
                      mk_row ''crush'' ''Did'' ''apple'' ''What'' ''[...]'' 0,
                      mk_row ''automobile'' ''Who'' ''car'' ''Who'' ''N/A'' 1,
                      mk_row ''pome'' ''What'' ''apple'' ''What'' ''N/A'' 1]\<rparr> \<and>
   ''car'' \<in> subject_strings 3 doc_crushed \<and>
   ''automobile'' \<in> subject_strings 3 doc_crushed \<and>
   are_synonyms (synsets ex_lib) (lemma_names ex_lib) ''car'' ''automobile'' \<and>
   ''apple'' \<in> object_strings 3 doc_crushed \<and>
   ''pome'' \<in> object_strings 3 doc_crushed \<and>
   are_synonyms (synsets ex_lib) (lemma_names ex_lib) ''apple'' ''pome'' \<and>
   (\<exists>syntactic semantic.
      [mk_row ''car'' ''Who'' ''crush'' ''Did'' ''[...]'' 0,
       mk_row ''crush'' ''Did'' ''apple'' ''What'' ''[...]'' 0,
       mk_row ''automobile'' ''Who'' ''crush'' ''Did'' ''[...]'' 0,
       mk_row ''crush'' ''Did'' ''pome'' ''What'' ''[...]'' 0,
       mk_row ''car'' ''Who'' ''crush'' ''Did'' ''[...]'' 0,
       mk_row ''crush'' ''Did'' ''apple'' ''What'' ''[...]'' 0,
       mk_row ''automobile'' ''Who'' ''car'' ''Who'' ''N/A'' 1,
       mk_row ''pome'' ''What'' ''apple'' ''What'' ''N/A'' 1] = syntactic @ semantic \<and>
      length (links ''Who'' ''car'' ''automobile'' semantic) = 1 \<and>
      length (links ''What'' ''apple'' ''pome'' semantic) = 1)"
proof -
  let ?rows = "[mk_row ''car'' ''Who'' ''crush'' ''Did'' ''[...]'' 0,
                mk_row ''crush'' ''Did'' ''apple'' ''What'' ''[...]'' 0,
                mk_row ''automobile'' ''Who'' ''crush'' ''Did'' ''[...]'' 0,
                mk_row ''crush'' ''Did'' ''pome'' ''What'' ''[...]'' 0,
                mk_row ''car'' ''Who'' ''crush'' ''Did'' ''[...]'' 0,
                mk_row ''crush'' ''Did'' ''apple'' ''What'' ''[...]'' 0,
                mk_row ''automobile'' ''Who'' ''car'' ''Who'' ''N/A'' 1,
                mk_row ''pome'' ''What'' ''apple'' ''What'' ''N/A'' 1]"
  have ok: "doc_ok doc_crushed" "ranked doc_crushed (\<lambda>t. [0, 1, 0, 0, 1, 0, 0, 1, 0] ! t) 2"
    by code_simp+
  have b: "2 * 2 + length doc_crushed \<le> 13"
    by (simp add: doc_crushed_def)
  have lok: "list_set_ok (list_set ex_lib)"
    by (simp add: ex_lib_def list_set_ok_remdups)
  have table: "extract_svos ex_res ex_lib 3 doc_crushed =
      Some \<lparr>df_columns = table_columns, df_rows = ?rows\<rparr>"
    by code_simp
  have l: "1 < length doc_crushed" "4 < length doc_crushed"
    by (simp_all add: doc_crushed_def)
  have q: "qualifies doc_crushed 1" "qualifies doc_crushed 4"
    by code_simp+
  have s: "get_verb_subjects 3 doc_crushed 1 = Some [(''car'', [])]"
    "get_verb_subjects 3 doc_crushed 4 = Some [(''automobile'', [])]"
    and o: "get_verb_objects 3 doc_crushed 1 = Some [(''apple'', [])]"
    "get_verb_objects 3 doc_crushed 4 = Some [(''pome'', [])]"
    by code_simp+
  have car: "''car'' \<in> subject_strings 3 doc_crushed"
    using subject_stringsI [OF l(1) q(1) s(1), of "(''car'', [])"] by simp
  have automobile: "''automobile'' \<in> subject_strings 3 doc_crushed"
    using subject_stringsI [OF l(2) q(2) s(2), of "(''automobile'', [])"] by simp
  have apple: "''apple'' \<in> object_strings 3 doc_crushed"
    using object_stringsI [OF l(1) q(1) o(1), of "(''apple'', [])"] by simp
  have pome: "''pome'' \<in> object_strings 3 doc_crushed"
    using object_stringsI [OF l(2) q(2) o(2), of "(''pome'', [])"] by simp
  have syn: "are_synonyms (synsets ex_lib) (lemma_names ex_lib) ''car'' ''automobile''"
    "are_synonyms (synsets ex_lib) (lemma_names ex_lib) ''apple'' ''pome''"
    by code_simp+
  note inst = synonym_augmentation [of doc_crushed "\<lambda>t. [0, 1, 0, 0, 1, 0, 0, 1, 0] ! t" 2 13
      ex_res ex_lib 3 "\<lparr>df_columns = table_columns, df_rows = ?rows\<rparr>"]
  have total: "\<exists>t. extract_svos ex_res ex_lib 13 doc_crushed = Some t"
    using mp [OF conjunct1 [OF inst]] ok b by blast
  from mp [OF conjunct2 [OF inst] conjI [OF lok table]] obtain syntactic semantic where
      t: "?rows = syntactic @ semantic"
    and w: "\<forall>a b. a \<in> subject_strings 3 doc_crushed \<and> b \<in> subject_strings 3 doc_crushed \<and>
                  a \<noteq> b \<and> are_synonyms (synsets ex_lib) (lemma_names ex_lib) a b \<longrightarrow>
                  length (links ''Who'' a b semantic) = 1"
    and x: "\<forall>a b. a \<in> object_strings 3 doc_crushed \<and> b \<in> object_strings 3 doc_crushed \<and>
                  a \<noteq> b \<and> are_synonyms (synsets ex_lib) (lemma_names ex_lib) a b \<longrightarrow>
                  length (links ''What'' a b semantic) = 1"
    by (elim exE conjE) simp
  have "length (links ''Who'' ''car'' ''automobile'' semantic) = 1"
    using w car automobile syn(1) by simp
  moreover have "length (links ''What'' ''apple'' ''pome'' semantic) = 1"
    using x apple pome syn(2) by simp
  ultimately show ?thesis
    using ok total t table car automobile apple pome syn by blast
qed

subsection \<open>Relative clauses\<close>

text \<open>
  Claim C8. For a token whose own label is acl or relcl the resolver returns at once:
  with nominal-subject children, the result is those children resolved by
  \<open>extract_subjects\<close>; without, it is the one phrase of the head noun, assembled with
  \<open>lemmatize = False\<close>. No other rule of the resolver takes part in the result. In a
  ranked document in order the call returns as soon as the depth allowed exceeds the bound
  of the ranks.
\<close>

theorem acl_relcl_subjects:
  assumes "dep_of d verb \<in> {''acl'', ''relcl''}"
  shows "get_verb_subjects (Suc n) d verb =
           (if children_with d verb {''nsubj''} \<noteq> []
            then extend_all (extract_subjects n d) (children_with d verb {''nsubj''})
            else map_option (\<lambda>subject. [subject]) (get_compound_parts n d (head_of d verb) False)) \<and>
         (doc_ok d \<and> ranked d rk N \<and> verb < length d \<and> N \<le> n \<longrightarrow>
            (\<exists>subjects. get_verb_subjects (Suc n) d verb = Some subjects))"
proof -
  have p1: "get_verb_subjects (Suc n) d verb =
           (if children_with d verb {''nsubj''} \<noteq> []
            then extend_all (extract_subjects n d) (children_with d verb {''nsubj''})
            else map_option (\<lambda>subject. [subject]) (get_compound_parts n d (head_of d verb) False))"
    using assms by (simp add: verb_subjects_step_def)
  have p2: "doc_ok d \<and> ranked d rk N \<and> verb < length d \<and> N \<le> n \<longrightarrow>
            (\<exists>subjects. get_verb_subjects (Suc n) d verb = Some subjects)"
  proof
    assume h: "doc_ok d \<and> ranked d rk N \<and> verb < length d \<and> N \<le> n"
    then have "\<exists>r. verb_subjects_step (get_verb_subjects n d) n d verb = Some r"
      using assms by (intro verb_subjects_step_total [of d rk N]) auto
    then show "\<exists>subjects. get_verb_subjects (Suc n) d verb = Some subjects"
      by simp
  qed
  show ?thesis
    by (rule conjI [OF p1 p2])
qed

theorem acl_relcl_subjects_witness:
  "dep_of doc_cake_relcl 4 = ''relcl'' \<and>
   children_with doc_cake_relcl 4 {''nsubj''} = [] \<and>
   get_compound_parts 2 doc_cake_relcl (head_of doc_cake_relcl 4) False = Some (''cakes'', []) \<and>
   get_verb_subjects 3 doc_cake_relcl 4 = Some [(''cakes'', [])] \<and>
   dep_of doc_baked 3 = ''relcl'' \<and>
   children_with doc_baked 3 {''nsubj''} = [2] \<and>
   extract_subjects 2 doc_baked 2 = Some [(''Alice'', [])] \<and>
   get_verb_subjects 3 doc_baked 3 = Some [(''Alice'', [])] \<and>
   doc_ok doc_baked \<and> ranked doc_baked (\<lambda>t. [0, 2, 0, 1] ! t) 3 \<and>
   (\<exists>subjects. get_verb_subjects (Suc 3) doc_baked 3 = Some subjects)"
proof -
  have a: "dep_of doc_cake_relcl 4 \<in> {''acl'', ''relcl''}"
    by code_simp
  have b: "dep_of doc_baked 3 \<in> {''acl'', ''relcl''}"
    by code_simp
  have c: "dep_of doc_cake_relcl 4 = ''relcl''" "children_with doc_cake_relcl 4 {''nsubj''} = []"
    "get_compound_parts 2 doc_cake_relcl (head_of doc_cake_relcl 4) False = Some (''cakes'', [])"
    "dep_of doc_baked 3 = ''relcl''" "children_with doc_baked 3 {''nsubj''} = [2]"
    "extract_subjects 2 doc_baked 2 = Some [(''Alice'', [])]"
    by code_simp+
  have ok: "doc_ok doc_baked" "ranked doc_baked (\<lambda>t. [0, 2, 0, 1] ! t) 3"
    by code_simp+
  have l: "3 < length doc_baked"
    by (simp add: doc_baked_def)
  have e1: "get_verb_subjects 3 doc_cake_relcl 4 = Some [(''cakes'', [])]"
    using acl_relcl_subjects [OF a, of 2 "\<lambda>t. 0" 0] c by (simp add: numeral_3_eq_3)
  have e2: "get_verb_subjects 3 doc_baked 3 = Some [(''Alice'', [])]"
    using acl_relcl_subjects [OF b, of 2 "\<lambda>t. 0" 0] c by (simp add: extend_all_def numeral_3_eq_3)
  have "doc_ok doc_baked \<and> ranked doc_baked (\<lambda>t. [0, 2, 0, 1] ! t) 3 \<and>
        3 < length doc_baked \<and> (3::nat) \<le> 3"
    using ok l by simp
  then have e3: "\<exists>subjects. get_verb_subjects (Suc 3) doc_baked 3 = Some subjects"
    by (rule mp [OF conjunct2 [OF acl_relcl_subjects [OF b, of 3 "\<lambda>t. [0, 2, 0, 1] ! t" 3]]])
  show ?thesis
    using c e1 e2 e3 ok by simp
qed

end
